theory Spec2Isabelle
  imports Main "HOL-Library.Sublist"
begin

section \<open>Python strings\<close>

text \<open>
  A Python \<^verbatim>\<open>str\<close> is a sequence of code points. It is modelled as a \<^typ>\<open>string\<close>
  whose characters are the code points U+0000 to U+00FF, so that \<^const>\<open>length\<close>,
  \<^const>\<open>take\<close> and \<^const>\<open>drop\<close> count what Python's \<^verbatim>\<open>len\<close> and slices count.
\<close>

definition py_lower_char :: "char \<Rightarrow> char" where
  \<comment> \<open>\<^verbatim>\<open>str.lower\<close> on one code point below U+0100: A-Z, and the Latin-1 capitals
      U+00C0..U+00DE without the multiplication sign U+00D7.\<close>
  "py_lower_char c =
     (let n = (of_char c :: nat)
      in if (65 \<le> n \<and> n \<le> 90) \<or> (192 \<le> n \<and> n \<le> 222 \<and> n \<noteq> 215)
         then char_of (n + 32) else c)"

definition py_lower :: "string \<Rightarrow> string" where
  "py_lower s = map py_lower_char s"

fun py_in :: "string \<Rightarrow> string \<Rightarrow> bool" where
  \<comment> \<open>\<^verbatim>\<open>needle in haystack\<close>\<close>
  "py_in needle [] = (needle = [])"
| "py_in needle (c # cs) = (prefix needle (c # cs) \<or> py_in needle cs)"

fun py_find :: "string \<Rightarrow> string \<Rightarrow> nat option" where
  \<comment> \<open>\<^verbatim>\<open>haystack.find(needle)\<close>; \<^verbatim>\<open>-1\<close> is \<^const>\<open>None\<close>\<close>
  "py_find needle [] = (if needle = [] then Some 0 else None)"
| "py_find needle (c # cs) =
     (if prefix needle (c # cs) then Some 0 else map_option Suc (py_find needle cs))"

definition py_isspace :: "char \<Rightarrow> bool" where
  \<comment> \<open>the code points below U+0100 that \<^verbatim>\<open>str.strip()\<close> removes\<close>
  "py_isspace c =
     (let n = (of_char c :: nat)
      in (9 \<le> n \<and> n \<le> 13) \<or> (28 \<le> n \<and> n \<le> 32) \<or> n = 133 \<or> n = 160)"

definition py_strip :: "string \<Rightarrow> string" where
  "py_strip s = rev (dropWhile py_isspace (rev (dropWhile py_isspace s)))"

definition py_replace_char :: "char \<Rightarrow> char \<Rightarrow> string \<Rightarrow> string" where
  \<comment> \<open>\<^verbatim>\<open>s.replace(a, b)\<close> for one-character \<^verbatim>\<open>a\<close> and \<^verbatim>\<open>b\<close>\<close>
  "py_replace_char a b s = map (\<lambda>c. if c = a then b else c) s"

definition split_first :: "char \<Rightarrow> string \<Rightarrow> (string \<times> string) option" where
  \<comment> \<open>\<^verbatim>\<open>s.split(c, 1)\<close> when \<^verbatim>\<open>c in s\<close>: the text before the first \<^verbatim>\<open>c\<close> and the text
      after it; \<^const>\<open>None\<close> when \<^verbatim>\<open>c\<close> does not occur\<close>
  "split_first c s =
     (if c \<in> set s then Some (takeWhile (\<lambda>x. x \<noteq> c) s, tl (dropWhile (\<lambda>x. x \<noteq> c) s))
      else None)"

definition split_head :: "char \<Rightarrow> string \<Rightarrow> string" where
  \<comment> \<open>\<^verbatim>\<open>s.split(c)[0]\<close>\<close>
  "split_head c s = takeWhile (\<lambda>x. x \<noteq> c) s"

section \<open>Bot-challenge detection\<close>

definition BOT_CHECK_KEYWORDS :: "string list" where
  "BOT_CHECK_KEYWORDS =
     [''are you a human'', ''captcha'', ''bot'', ''please verify'', ''verify you are a human'',
      ''recaptcha'', ''Access Denied'', ''unusual traffic'']"

definition is_bot_page :: "string \<Rightarrow> bool" where
  "is_bot_page html_text =
     (let text = py_lower (take 2000 html_text)
      in list_ex (\<lambda>kw. py_in (py_lower kw) text) BOT_CHECK_KEYWORDS)"

section \<open>Errors and external collaborators\<close>

text \<open>
  Every Python exception the code can meet is a value; \<^verbatim>\<open>except Exception\<close> catches all
  of them. \<open>HTTPError\<close> stands for whatever \<^verbatim>\<open>session.get\<close> and
  \<^verbatim>\<open>raise_for_status\<close> raise.
\<close>

datatype error =
    HTTPError
  | RuntimeError string
  | ValueError
  | AttributeError
  | KeyError
  | IndexError
  | JSONDecodeError

definition ebind :: "error + 'a \<Rightarrow> ('a \<Rightarrow> error + 'b) \<Rightarrow> error + 'b" where
  \<comment> \<open>sequencing: the first exception raised ends the computation\<close>
  "ebind m f = (case m of Inl e \<Rightarrow> Inl e | Inr v \<Rightarrow> f v)"

datatype pyfloat = Finite int int | PyInf bool | NaN

datatype json =
    JNull
  | JBool bool
  | JInt int
  | JFloat pyfloat
  | JStr string
  | JArr "json list"
  | JObj "(string \<times> json) list"

record tag =
  tag_string :: "string option"
  tag_text :: string

text \<open>
  The libraries the program calls are parameters of the model: the HTML parser
  (\<^verbatim>\<open>BeautifulSoup\<close>), \<^verbatim>\<open>json.loads\<close>, \<^verbatim>\<open>re.findall\<close> with the fixed pattern of
  \<^verbatim>\<open>get_link\<close>, the two deep validations inside \<^verbatim>\<open>urlsplit\<close> (the address check of a
  bracketed host and the NFKC check of a non-ASCII host), and the network session. Each
  field is the answer of the library on the given text; nothing is assumed about them.
\<close>

record env =
  bracketed_host_ok :: "string \<Rightarrow> bool"
  nfkc_netloc_ok :: "string \<Rightarrow> bool"
  find_all_a_href :: "string \<Rightarrow> string list"
  re_findall_ip :: "string \<Rightarrow> string list"
  find_next_data :: "string \<Rightarrow> tag option"
  find_all_ld_json :: "string \<Rightarrow> tag list"
  json_loads :: "string \<Rightarrow> error + json"
  fetch_search :: "int \<Rightarrow> error + string"
  fetch_product :: "string \<Rightarrow> error + string"

section \<open>URL splitting (urllib.parse, CPython 3.11)\<close>

definition ascii_alpha :: "char \<Rightarrow> bool" where
  "ascii_alpha c =
     (let n = (of_char c :: nat) in (65 \<le> n \<and> n \<le> 90) \<or> (97 \<le> n \<and> n \<le> 122))"

definition scheme_char :: "char \<Rightarrow> bool" where
  \<comment> \<open>membership in \<^verbatim>\<open>scheme_chars\<close>: ASCII letters, digits, plus, minus, dot\<close>
  "scheme_char c =
     (let n = (of_char c :: nat)
      in (65 \<le> n \<and> n \<le> 90) \<or> (97 \<le> n \<and> n \<le> 122) \<or> (48 \<le> n \<and> n \<le> 57)
         \<or> n = 43 \<or> n = 45 \<or> n = 46)"

definition is_ascii :: "char \<Rightarrow> bool" where
  "is_ascii c = ((of_char c :: nat) < 128)"

definition lstrip_c0 :: "string \<Rightarrow> string" where
  \<comment> \<open>\<^verbatim>\<open>url.lstrip(_WHATWG_C0_CONTROL_OR_SPACE)\<close>: U+0000..U+0020\<close>
  "lstrip_c0 url = dropWhile (\<lambda>c. (of_char c :: nat) \<le> 32) url"

definition unsafe_byte :: "char \<Rightarrow> bool" where
  \<comment> \<open>\<^verbatim>\<open>_UNSAFE_URL_BYTES_TO_REMOVE\<close>: tab, carriage return, newline\<close>
  "unsafe_byte c = (let n = (of_char c :: nat) in n = 9 \<or> n = 13 \<or> n = 10)"

definition remove_unsafe :: "string \<Rightarrow> string" where
  "remove_unsafe url = filter (\<lambda>c. \<not> unsafe_byte c) url"

definition split_scheme :: "string \<Rightarrow> string \<times> string" where
  \<comment> \<open>the scheme loop of \<^verbatim>\<open>urlsplit\<close>: the lower-cased scheme and the rest, or no scheme\<close>
  "split_scheme url =
     (case split_first CHR '':'' url of
        Some (pre, post) \<Rightarrow>
          if pre \<noteq> [] \<and> is_ascii (hd pre) \<and> ascii_alpha (hd pre) \<and> list_all scheme_char pre
          then (py_lower pre, post) else ([], url)
      | None \<Rightarrow> ([], url))"

definition netloc_delim :: "char \<Rightarrow> bool" where
  "netloc_delim c = (c = CHR ''/'' \<or> c = CHR ''?'' \<or> c = CHR ''#'')"

definition splitnetloc :: "string \<Rightarrow> string \<times> string" where
  \<comment> \<open>\<^verbatim>\<open>_splitnetloc(url, 2)\<close>\<close>
  "splitnetloc url =
     (takeWhile (\<lambda>c. \<not> netloc_delim c) (drop 2 url),
      dropWhile (\<lambda>c. \<not> netloc_delim c) (drop 2 url))"

definition bracket_error :: "env \<Rightarrow> string \<Rightarrow> bool" where
  \<comment> \<open>the two IPv6 checks of \<^verbatim>\<open>urlsplit\<close> raise\<close>
  "bracket_error E netloc =
     (let lb = CHR ''['' \<in> set netloc; rb = CHR '']'' \<in> set netloc
      in (lb \<and> \<not> rb) \<or> (rb \<and> \<not> lb) \<or> (lb \<and> rb \<and> \<not> bracketed_host_ok E netloc))"

definition checknetloc_error :: "env \<Rightarrow> string \<Rightarrow> bool" where
  \<comment> \<open>\<^verbatim>\<open>_checknetloc\<close> raises: never on an empty or ASCII netloc\<close>
  "checknetloc_error E netloc =
     (netloc \<noteq> [] \<and> \<not> list_all is_ascii netloc \<and> \<not> nfkc_netloc_ok E netloc)"

record split_result =
  sr_scheme :: string
  sr_netloc :: string
  sr_path :: string
  sr_query :: string
  sr_fragment :: string

definition urlsplit :: "env \<Rightarrow> string \<Rightarrow> error + split_result" where
  "urlsplit E url0 =
     (let url1 = remove_unsafe (lstrip_c0 url0);
          (scheme, url2) = split_scheme url1;
          has_netloc = (take 2 url2 = ''//'');
          (netloc, url3) = (if has_netloc then splitnetloc url2 else ([], url2))
      in if has_netloc \<and> bracket_error E netloc then Inl ValueError
         else
           let (url4, fragment) =
                 (case split_first CHR ''#'' url3 of Some (a, b) \<Rightarrow> (a, b) | None \<Rightarrow> (url3, []));
               (url5, query) =
                 (case split_first CHR ''?'' url4 of Some (a, b) \<Rightarrow> (a, b) | None \<Rightarrow> (url4, []))
           in if checknetloc_error E netloc then Inl ValueError
              else Inr \<lparr>sr_scheme = scheme, sr_netloc = netloc, sr_path = url5,
                         sr_query = query, sr_fragment = fragment\<rparr>)"

definition uses_netloc :: "string list" where
  "uses_netloc =
     ['''', ''ftp'', ''http'', ''gopher'', ''nntp'', ''telnet'', ''imap'', ''wais'', ''file'',
      ''mms'', ''https'', ''shttp'', ''snews'', ''prospero'', ''rtsp'', ''rtsps'', ''rtspu'',
      ''rsync'', ''svn'', ''svn+ssh'', ''sftp'', ''nfs'', ''git'', ''git+ssh'', ''ws'', ''wss'']"

definition urlunsplit :: "string \<Rightarrow> string \<Rightarrow> string \<Rightarrow> string \<Rightarrow> string \<Rightarrow> string" where
  \<comment> \<open>the first test has further disjuncts that differ between releases; they are reached
      only with an empty netloc, which \<^verbatim>\<open>normalize_product_url\<close> never passes\<close>
  "urlunsplit scheme netloc url query fragment =
     (let url1 =
            (if netloc \<noteq> [] \<or> (scheme \<noteq> [] \<and> scheme \<in> set uses_netloc) \<or> take 2 url = ''//''
             then ''//'' @ netloc @ (if url \<noteq> [] \<and> take 1 url \<noteq> ''/'' then ''/'' @ url else url)
             else url);
          url2 = (if scheme \<noteq> [] then scheme @ '':'' @ url1 else url1);
          url3 = (if query \<noteq> [] then url2 @ ''?'' @ query else url2)
      in if fragment \<noteq> [] then url3 @ ''#'' @ fragment else url3)"

section \<open>URL normalisation and link extraction\<close>

definition normalize_product_url :: "env \<Rightarrow> string \<Rightarrow> error + string" where
  "normalize_product_url E raw =
     ebind (urlsplit E raw) (\<lambda>parsed.
       let scheme = (if sr_scheme parsed \<noteq> [] then sr_scheme parsed else ''https'');
           netloc = (if sr_netloc parsed \<noteq> [] then sr_netloc parsed else ''www.walmart.com'');
           path = sr_path parsed
       in Inr (urlunsplit scheme netloc path [] []))"

definition canonical_of_href :: "env \<Rightarrow> string \<Rightarrow> error + string" where
  \<comment> \<open>lines 75 to 78 of \<^verbatim>\<open>get_link\<close>: the call of the normaliser and its
      \<^verbatim>\<open>except Exception\<close> fallback\<close>
  "canonical_of_href E href =
     (case normalize_product_url E
             (if prefix ''http'' href then href else ''https://www.walmart.com'' @ href) of
        Inr canonical \<Rightarrow> Inr canonical
      | Inl e \<Rightarrow>
          Inr (''https://www.walmart.com'' @ split_head CHR ''#'' (split_head CHR ''?'' href)))"

fun anchor_urls :: "env \<Rightarrow> string list \<Rightarrow> error + string list" where
  \<comment> \<open>the loop over \<^verbatim>\<open>soup.find_all("a", href=True)\<close>; the list holds the href values in
      document order\<close>
  "anchor_urls E [] = Inr []"
| "anchor_urls E (href # rest) =
     (if py_in ''/ip/'' href \<and> \<not> prefix ''/b/'' (py_lower href)
      then (case canonical_of_href E href of
              Inl e \<Rightarrow> Inl e
            | Inr canonical \<Rightarrow>
                (case anchor_urls E rest of Inl e \<Rightarrow> Inl e | Inr us \<Rightarrow> Inr (canonical # us)))
      else anchor_urls E rest)"

fun fallback_urls :: "string list \<Rightarrow> string list" where
  \<comment> \<open>the loop over \<^verbatim>\<open>raw_matches\<close>\<close>
  "fallback_urls [] = []"
| "fallback_urls (p # rest) =
     (let p' = split_head CHR ''#'' (split_head CHR ''?'' p)
      in if \<not> prefix ''/ip/'' p' then fallback_urls rest
         else (''https://www.walmart.com'' @ p') # fallback_urls rest)"

fun dedupe_loop :: "string set \<Rightarrow> string list \<Rightarrow> string list \<Rightarrow> string list" where
  \<comment> \<open>\<^verbatim>\<open>seen\<close>, \<^verbatim>\<open>deduped\<close> and the rest of \<^verbatim>\<open>product_urls\<close>\<close>
  "dedupe_loop seen deduped [] = deduped"
| "dedupe_loop seen deduped (u # us) =
     (if u \<notin> seen then dedupe_loop (insert u seen) (deduped @ [u]) us
      else dedupe_loop seen deduped us)"

definition product_urls :: "env \<Rightarrow> string \<Rightarrow> error + string list" where
  \<comment> \<open>the list \<^verbatim>\<open>product_urls\<close> when the dedupe loop starts: the anchor URLs, or the
      regex URLs when there is no anchor URL\<close>
  "product_urls E html =
     ebind (anchor_urls E (find_all_a_href E html)) (\<lambda>anchors.
       if anchors = [] then Inr (fallback_urls (re_findall_ip E html)) else Inr anchors)"

definition get_link_html :: "env \<Rightarrow> string \<Rightarrow> error + string list" where
  \<comment> \<open>lines 65 to 100 of \<^verbatim>\<open>get_link\<close>: what runs on the text of a fetched search page\<close>
  "get_link_html E html =
     ebind (product_urls E html) (\<lambda>urls. Inr (dedupe_loop {} [] urls))"

definition get_link :: "env \<Rightarrow> int \<Rightarrow> error + string list" where
  \<comment> \<open>the query is fixed for a run; \<^const>\<open>fetch_search\<close> is the request for its page\<close>
  "get_link E page_number =
     ebind (fetch_search E page_number) (\<lambda>html.
       if is_bot_page html
       then Inl (RuntimeError ''Request looks like a bot-check/captcha page. Try different IP / headers / manual verification.'')
       else get_link_html E html)"

section \<open>Python values read from JSON\<close>

fun truthy :: "json \<Rightarrow> bool" where
  "truthy JNull = False"
| "truthy (JBool b) = b"
| "truthy (JInt n) = (n \<noteq> 0)"
| "truthy (JFloat f) = (case f of Finite m e \<Rightarrow> m \<noteq> 0 | _ \<Rightarrow> True)"
| "truthy (JStr s) = (s \<noteq> [])"
| "truthy (JArr xs) = (xs \<noteq> [])"
| "truthy (JObj kvs) = (kvs \<noteq> [])"

definition py_get :: "json \<Rightarrow> string \<Rightarrow> json \<Rightarrow> error + json" where
  \<comment> \<open>\<^verbatim>\<open>obj.get(key, default)\<close>: only a dict has \<^verbatim>\<open>get\<close>\<close>
  "py_get obj key dflt =
     (case obj of
        JObj kvs \<Rightarrow> Inr (case map_of kvs key of Some v \<Rightarrow> v | None \<Rightarrow> dflt)
      | _ \<Rightarrow> Inl AttributeError)"

definition py_or_else :: "json \<Rightarrow> (error + json) \<Rightarrow> error + json" where
  \<comment> \<open>\<^verbatim>\<open>a or b\<close>, where \<^verbatim>\<open>b\<close> is evaluated only when \<^verbatim>\<open>a\<close> is falsy\<close>
  "py_or_else a b = (if truthy a then Inr a else b)"

definition script_text_of :: "tag \<Rightarrow> string" where
  \<comment> \<open>\<^verbatim>\<open>s.string or s.get_text()\<close>\<close>
  "script_text_of s =
     (case tag_string s of
        Some t \<Rightarrow> if t \<noteq> [] then t else tag_text s
      | None \<Rightarrow> tag_text s)"

type_synonym info = "(string \<times> json) list"

section \<open>Product record extraction\<close>

definition first_product :: "json \<Rightarrow> error + json" where
  \<comment> \<open>\<^verbatim>\<open>products and (products[0] if isinstance(products, list) else None)\<close>\<close>
  "first_product products =
     (if \<not> truthy products then Inr products
      else (case products of
              JArr xs \<Rightarrow> (case xs of x # _ \<Rightarrow> Inr x | [] \<Rightarrow> Inl IndexError)
            | _ \<Rightarrow> Inr JNull))"

definition next_data_info :: "json \<Rightarrow> json \<Rightarrow> error + info" where
  \<comment> \<open>lines 117 to 128: the dict built from \<^verbatim>\<open>product\<close> and \<^verbatim>\<open>reviews\<close>\<close>
  "next_data_info product reviews =
     ebind (py_get product ''name'' JNull) (\<lambda>name.
     ebind (py_get product ''priceInfo'' (JObj [])) (\<lambda>price_info.
     ebind (py_get price_info ''currentPrice'' (JObj [])) (\<lambda>current_price.
     ebind (py_get current_price ''price'' JNull) (\<lambda>price.
     ebind (py_get product ''availabilityStatus'' JNull) (\<lambda>availability.
     ebind (py_get product ''brand'' JNull) (\<lambda>b.
     ebind (py_or_else b (py_get product ''brandName'' JNull)) (\<lambda>brand.
     ebind (py_get product ''modelNumber'' (JStr ''N/A'')) (\<lambda>model.
     ebind (py_get product ''keyProductFeatures'' (JArr [])) (\<lambda>f.
     ebind (py_or_else f (py_get product ''bulletDescriptions'' (JArr []))) (\<lambda>features.
     ebind (py_get reviews ''customerRating'' (JInt 0)) (\<lambda>cr.
     ebind (py_or_else cr (py_get product ''rating'' JNull)) (\<lambda>rating.
     ebind (py_get product ''numReviews'' (JInt 0)) (\<lambda>nr.
     ebind (py_or_else nr (py_get product ''reviewCount'' (JInt 0))) (\<lambda>review_count.
       Inr [(''name'', name), (''price'', price), (''availability'', availability),
            (''brand'', brand), (''model'', model), (''features'', features),
            (''rating'', rating), (''review_count'', review_count)]))))))))))))))"

definition parse_next_data :: "env \<Rightarrow> string \<Rightarrow> error + info" where
  "parse_next_data E script_text =
     ebind (json_loads E script_text) (\<lambda>data.
     ebind (py_get data ''props'' (JObj [])) (\<lambda>props.
     ebind (py_get props ''pageProps'' (JObj [])) (\<lambda>page_props.
     ebind (py_get page_props ''initialData'' (JObj [])) (\<lambda>initial.
     ebind (py_get initial ''data'' (JObj [])) (\<lambda>initial_data.
     ebind (py_get initial_data ''product'' JNull) (\<lambda>p.
     ebind (py_or_else p (ebind (py_get initial_data ''products'' JNull) first_product)) (\<lambda>product.
     ebind (py_get initial_data ''reviews'' (JObj [])) (\<lambda>r.
       if \<not> truthy product then Inl KeyError
       else next_data_info product (if truthy r then r else JObj [])))))))))"

definition try_next_data :: "env \<Rightarrow> string \<Rightarrow> info option" where
  \<comment> \<open>strategy 1; every exception of \<^const>\<open>parse_next_data\<close> is caught\<close>
  "try_next_data E html =
     (case find_next_data E html of
        None \<Rightarrow> None
      | Some script_next \<Rightarrow>
          let script_text = script_text_of script_next
          in if script_text = [] then None
             else (case parse_next_data E script_text of Inr i \<Rightarrow> Some i | Inl e \<Rightarrow> None))"

definition ld_offers :: "json \<Rightarrow> error + json \<times> json" where
  \<comment> \<open>\<^verbatim>\<open>price\<close> and \<^verbatim>\<open>availability\<close> from \<^verbatim>\<open>offers\<close>\<close>
  "ld_offers offers =
     (case offers of
        JObj kvs \<Rightarrow>
          ebind (py_get offers ''price'' JNull) (\<lambda>p.
          ebind (py_or_else p (py_get offers ''lowPrice'' JNull)) (\<lambda>price.
          ebind (py_get offers ''availability'' JNull) (\<lambda>availability.
            Inr (price, availability))))
      | _ \<Rightarrow> Inr (JNull, JNull))"

definition ld_item_info :: "json \<Rightarrow> error + info" where
  \<comment> \<open>lines 179 to 204: the fields of an accepted linked-data item\<close>
  "ld_item_info item =
     ebind (py_get item ''name'' JNull) (\<lambda>name.
     ebind (py_get item ''brand'' JNull) (\<lambda>b.
     ebind (case b of JObj kvs \<Rightarrow> py_get b ''name'' JNull | JStr s \<Rightarrow> Inr b | _ \<Rightarrow> Inr JNull) (\<lambda>brand.
     ebind (py_get item ''offers'' JNull) (\<lambda>off.
     ebind (ld_offers (if truthy off then off else JObj [])) (\<lambda>pa.
     ebind (py_get item ''aggregateRating'' JNull) (\<lambda>a.
     let agg = (if truthy a then a else JObj [])
     in
     ebind (py_get agg ''ratingValue'' JNull) (\<lambda>rating.
     ebind (py_get agg ''reviewCount'' JNull) (\<lambda>rc.
     ebind (py_or_else rc (py_get agg ''reviewCount'' JNull)) (\<lambda>review_count.
     ebind (py_get item ''sku'' (JStr ''N/A'')) (\<lambda>model.
     ebind (py_get item ''description'' (JStr [])) (\<lambda>features.
       Inr [(''name'', name), (''price'', fst pa), (''availability'', snd pa),
            (''brand'', brand), (''model'', model), (''features'', features),
            (''rating'', rating), (''review_count'', review_count)])))))))))))"

definition ld_accepts :: "json \<Rightarrow> error + bool" where
  \<comment> \<open>\<^verbatim>\<open>t = item.get("@type", "").lower()\<close> and the test \<^verbatim>\<open>t == "product" or "offers" in item\<close>,
      for a dict \<^verbatim>\<open>item\<close>; \<^verbatim>\<open>lower\<close> exists on a string only\<close>
  "ld_accepts item =
     ebind (py_get item ''@type'' (JStr [])) (\<lambda>t0.
       case t0 of
         JStr s \<Rightarrow>
           Inr (py_lower s = ''product''
                \<or> (case item of JObj kvs \<Rightarrow> ''offers'' \<in> set (map fst kvs) | _ \<Rightarrow> False))
       | _ \<Rightarrow> Inl AttributeError)"

fun ld_candidates :: "json list \<Rightarrow> error + info option" where
  \<comment> \<open>the loop over \<^verbatim>\<open>candidates\<close>; nothing here is inside a \<^verbatim>\<open>try\<close>\<close>
  "ld_candidates [] = Inr None"
| "ld_candidates (item # rest) =
     (case item of
        JObj kvs \<Rightarrow>
          (case ld_accepts item of
             Inl e \<Rightarrow> Inl e
           | Inr True \<Rightarrow> (case ld_item_info item of Inl e \<Rightarrow> Inl e | Inr i \<Rightarrow> Inr (Some i))
           | Inr False \<Rightarrow> ld_candidates rest)
      | _ \<Rightarrow> ld_candidates rest)"

fun ld_scripts :: "env \<Rightarrow> tag list \<Rightarrow> error + info option" where
  \<comment> \<open>strategy 2: the loop over the \<^verbatim>\<open>application/ld+json\<close> scripts\<close>
  "ld_scripts E [] = Inr None"
| "ld_scripts E (s # rest) =
     (let jtext = script_text_of s
      in if jtext = [] then ld_scripts E rest
         else (case json_loads E jtext of
                 Inl e \<Rightarrow> ld_scripts E rest
               | Inr jd \<Rightarrow>
                   (case ld_candidates (case jd of JArr xs \<Rightarrow> xs | _ \<Rightarrow> [jd]) of
                      Inl e \<Rightarrow> Inl e
                    | Inr (Some i) \<Rightarrow> Inr (Some i)
                    | Inr None \<Rightarrow> ld_scripts E rest)))"

definition heuristic_info :: "json \<Rightarrow> json \<Rightarrow> error + info" where
  \<comment> \<open>lines 222 to 233: the dict built from \<^verbatim>\<open>initial_data\<close> and \<^verbatim>\<open>product\<close>\<close>
  "heuristic_info initial_data product =
     ebind (py_get product ''name'' JNull) (\<lambda>name.
     ebind (py_get product ''priceInfo'' (JObj [])) (\<lambda>price_info.
     ebind (py_get price_info ''currentPrice'' (JObj [])) (\<lambda>current_price.
     ebind (py_get current_price ''price'' JNull) (\<lambda>price.
     ebind (py_get product ''availabilityStatus'' JNull) (\<lambda>availability.
     ebind (py_get product ''brand'' JNull) (\<lambda>brand.
     ebind (py_get product ''modelNumber'' (JStr ''N/A'')) (\<lambda>model.
     ebind (py_get product ''keyProductFeatures'' (JArr [])) (\<lambda>features.
     ebind (py_get initial_data ''reviews'' (JObj [])) (\<lambda>reviews.
     ebind (py_get reviews ''customerRating'' (JInt 0)) (\<lambda>rating.
     ebind (py_get product ''numReviews'' (JInt 0)) (\<lambda>review_count.
       Inr [(''name'', name), (''price'', price), (''availability'', availability),
            (''brand'', brand), (''model'', model), (''features'', features),
            (''rating'', rating), (''review_count'', review_count)])))))))))))"

definition heuristic_parse :: "env \<Rightarrow> string \<Rightarrow> error + info option" where
  \<comment> \<open>the body of the \<^verbatim>\<open>try\<close> of strategy 3\<close>
  "heuristic_parse E snippet =
     ebind (json_loads E snippet) (\<lambda>cand.
     ebind (py_get cand ''props'' (JObj [])) (\<lambda>props.
     ebind (py_get props ''pageProps'' (JObj [])) (\<lambda>page_props.
     ebind (py_get page_props ''initialData'' (JObj [])) (\<lambda>initial.
     ebind (py_get initial ''data'' (JObj [])) (\<lambda>initial_data.
     ebind (py_get initial_data ''product'' JNull) (\<lambda>product.
       if \<not> truthy product then Inr None
       else ebind (heuristic_info initial_data product) (\<lambda>i. Inr (Some i))))))))"

definition product_marker :: string where
  \<comment> \<open>the text \<^verbatim>\<open>"product":\<close>\<close>
  "product_marker = CHR 0x22 # ''product'' @ [CHR 0x22, CHR '':'']"

definition props_marker :: string where
  \<comment> \<open>the text \<^verbatim>\<open>{"props"\<close>\<close>
  "props_marker = CHR ''{'' # CHR 0x22 # ''props'' @ [CHR 0x22]"

definition try_heuristic :: "env \<Rightarrow> string \<Rightarrow> info option" where
  \<comment> \<open>strategy 3\<close>
  "try_heuristic E html =
     (if py_in product_marker html
      then (case py_find props_marker html of
              None \<Rightarrow> None
            | Some idx \<Rightarrow>
                let snippet = take 500000 (drop idx html);
                    snippet' = (case py_find ''</script>'' snippet of
                                  Some end_idx \<Rightarrow> take end_idx snippet
                                | None \<Rightarrow> snippet)
                in (case heuristic_parse E snippet' of Inr r \<Rightarrow> r | Inl e \<Rightarrow> None))
      else None)"

definition page_sample :: "string \<Rightarrow> string" where
  \<comment> \<open>\<^verbatim>\<open>html[:1200].replace("\n", " ").strip()\<close>\<close>
  "page_sample html = py_strip (py_replace_char (CHR 0x0A) CHR '' '' (take 1200 html))"

definition no_data_message :: string where
  "no_data_message = ''Could not locate structured product JSON on the page. Page sample: ''"

definition prod_info_html :: "env \<Rightarrow> string \<Rightarrow> error + info" where
  \<comment> \<open>lines 147 to 239 of \<^verbatim>\<open>prod_info\<close>: what runs on the text of a fetched product page\<close>
  "prod_info_html E html =
     (case try_next_data E html of
        Some i \<Rightarrow> Inr i
      | None \<Rightarrow>
          (case ld_scripts E (find_all_ld_json E html) of
             Inl e \<Rightarrow> Inl e
           | Inr (Some i) \<Rightarrow> Inr i
           | Inr None \<Rightarrow>
               (case try_heuristic E html of
                  Some i \<Rightarrow> Inr i
                | None \<Rightarrow> Inl (RuntimeError (no_data_message @ page_sample html)))))"

definition prod_info :: "env \<Rightarrow> string \<Rightarrow> error + info" where
  "prod_info E product_url =
     ebind (fetch_product E product_url) (\<lambda>html.
       if is_bot_page html
       then Inl (RuntimeError ''Product page looks like a bot-check/captcha. Manual verification required or try different IP/headers.'')
       else prod_info_html E html)"

section \<open>The search pipeline\<close>

datatype event =
    SearchPageFailed int error
  | NoProductUrls
  | Fetching string
  | ProductFailed error

fun add_urls :: "int \<Rightarrow> string list \<Rightarrow> string list \<times> string set \<Rightarrow> string list \<times> string set" where
  \<comment> \<open>the loop \<^verbatim>\<open>for u in urls\<close> with its \<^verbatim>\<open>break\<close>\<close>
  "add_urls max_results [] st = st"
| "add_urls max_results (u # us) (collected_urls, collected_set) =
     (if u \<notin> collected_set
      then (if max_results \<le> int (length (collected_urls @ [u]))
            then (collected_urls @ [u], insert u collected_set)
            else add_urls max_results us (collected_urls @ [u], insert u collected_set))
      else add_urls max_results us (collected_urls, collected_set))"

fun page_loop ::
  "env \<Rightarrow> int \<Rightarrow> int list \<Rightarrow> string list \<times> string set \<Rightarrow> (string list \<times> string set) \<times> event list"
where
  \<comment> \<open>the loop \<^verbatim>\<open>for page in range(1, max_pages + 1)\<close> with its two \<^verbatim>\<open>break\<close>s\<close>
  "page_loop E max_results [] st = (st, [])"
| "page_loop E max_results (page # pages) st =
     (case get_link E page of
        Inl e \<Rightarrow> (st, [SearchPageFailed page e])
      | Inr urls \<Rightarrow>
          let st' = add_urls max_results urls st
          in if max_results \<le> int (length (fst st')) then (st', [])
             else page_loop E max_results pages st')"

definition py_slice_to :: "int \<Rightarrow> 'a list \<Rightarrow> 'a list" where
  \<comment> \<open>\<^verbatim>\<open>xs[:n]\<close>; a negative \<^verbatim>\<open>n\<close> counts from the end\<close>
  "py_slice_to n xs =
     (if 0 \<le> n then take (nat n) xs else take (length xs - nat (- n)) xs)"

definition dict_set :: "string \<Rightarrow> json \<Rightarrow> info \<Rightarrow> info" where
  \<comment> \<open>\<^verbatim>\<open>d[k] = v\<close> on an insertion-ordered dict\<close>
  "dict_set k v d =
     (if k \<in> set (map fst d) then map (\<lambda>(k', v'). if k' = k then (k', v) else (k', v')) d
      else d @ [(k, v)])"

fun product_loop :: "env \<Rightarrow> string list \<Rightarrow> info list \<times> event list" where
  \<comment> \<open>the loop over \<^verbatim>\<open>collected_urls[:max_results]\<close>: results and printed lines\<close>
  "product_loop E [] = ([], [])"
| "product_loop E (url # urls) =
     (let (results, log) = product_loop E urls
      in (case prod_info E url of
            Inr i \<Rightarrow> (dict_set ''url'' (JStr url) i # results, Fetching url # log)
          | Inl e \<Rightarrow> (results, Fetching url # ProductFailed e # log)))"

definition collect_urls :: "env \<Rightarrow> int \<Rightarrow> int \<Rightarrow> string list \<times> event list" where
  \<comment> \<open>the paging part of \<^verbatim>\<open>main\<close>: \<^verbatim>\<open>collected_urls\<close> and the printed failure\<close>
  "collect_urls E max_results max_pages =
     (let (st, log) = page_loop E max_results [1..max_pages] ([], {}) in (fst st, log))"

definition main :: "env \<Rightarrow> int \<Rightarrow> int \<Rightarrow> info list option \<times> event list" where
  \<comment> \<open>\<^verbatim>\<open>main\<close> after its prompts: the printed results (none when it returns early) and
      the printed progress lines\<close>
  "main E max_results max_pages =
     (let (collected_urls, log) = collect_urls E max_results max_pages
      in if collected_urls = [] then (None, log @ [NoProductUrls])
         else let (results, log') = product_loop E (py_slice_to max_results collected_urls)
              in (Some results, log @ log'))"

section \<open>Notions used to state the claims\<close>

definition first_index :: "'a list \<Rightarrow> 'a \<Rightarrow> nat" where
  \<comment> \<open>the position of the first occurrence of \<open>x\<close> (the length when there is none)\<close>
  "first_index xs x = length (takeWhile (\<lambda>y. y \<noteq> x) xs)"

definition has_query_or_fragment :: "string \<Rightarrow> bool" where
  "has_query_or_fragment u = (CHR ''?'' \<in> set u \<or> CHR ''#'' \<in> set u)"

definition is_absolute_url :: "string \<Rightarrow> bool" where
  \<comment> \<open>the library's own splitting finds a scheme and, after \<^verbatim>\<open>//\<close>, a network location\<close>
  "is_absolute_url u =
     (case split_scheme u of
        (s, r) \<Rightarrow> s \<noteq> [] \<and> take 2 r = ''//'' \<and> fst (splitnetloc r) \<noteq> [])"

definition url_shape :: "env \<Rightarrow> string \<Rightarrow> string \<Rightarrow> string \<Rightarrow> bool" where
  \<comment> \<open>scheme, network location and path of a URL that \<^const>\<open>normalize_product_url\<close> returns\<close>
  "url_shape E s n p \<longleftrightarrow>
     s \<noteq> [] \<and> ascii_alpha (hd s) \<and> list_all scheme_char s \<and> py_lower s = s
     \<and> n \<noteq> [] \<and> list_all (\<lambda>c. \<not> netloc_delim c \<and> \<not> unsafe_byte c) n
     \<and> \<not> bracket_error E n \<and> \<not> checknetloc_error E n
     \<and> (p = [] \<or> hd p = CHR ''/'')
     \<and> list_all (\<lambda>c. c \<noteq> CHR ''?'' \<and> c \<noteq> CHR ''#'' \<and> \<not> unsafe_byte c) p"

definition differ_only_in_query_fragment :: "string \<Rightarrow> string \<Rightarrow> bool" where
  \<comment> \<open>the two texts agree up to the first \<^verbatim>\<open>?\<close> or \<^verbatim>\<open>#\<close> of each\<close>
  "differ_only_in_query_fragment u v \<longleftrightarrow>
     takeWhile (\<lambda>c. c \<noteq> CHR ''?'' \<and> c \<noteq> CHR ''#'') u
       = takeWhile (\<lambda>c. c \<noteq> CHR ''?'' \<and> c \<noteq> CHR ''#'') v"

section \<open>Record keys and example pages\<close>

definition RECORD_KEYS :: "string list" where
  "RECORD_KEYS =
     [''name'', ''price'', ''availability'', ''brand'', ''model'', ''features'', ''rating'',
      ''review_count'']"

definition alpha_product :: "(string \<times> json) list" where
  \<comment> \<open>a product named Alpha with a price and nothing else\<close>
  "alpha_product =
     [(''name'', JStr ''Alpha''),
      (''priceInfo'', JObj [(''currentPrice'', JObj [(''price'', JInt 5)])])]"

definition alpha_data :: "(string \<times> json) list" where
  "alpha_data = [(''product'', JObj alpha_product)]"

definition next_json :: json where
  \<comment> \<open>a page state holding \<^const>\<open>alpha_product\<close>\<close>
  "next_json =
     JObj [(''props'', JObj [(''pageProps'', JObj [(''initialData'',
       JObj [(''data'', JObj alpha_data)])])])]"

definition alpha_record :: info where
  "alpha_record =
     [(''name'', JStr ''Alpha''), (''price'', JInt 5), (''availability'', JNull),
      (''brand'', JNull), (''model'', JStr ''N/A''), (''features'', JArr []),
      (''rating'', JNull), (''review_count'', JInt 0)]"

definition beta_item :: "(string \<times> json) list" where
  \<comment> \<open>a linked-data product named Beta with neither sku nor aggregateRating\<close>
  "beta_item = [(''@type'', JStr ''Product''), (''name'', JStr ''Beta'')]"

definition beta_record :: info where
  "beta_record =
     [(''name'', JStr ''Beta''), (''price'', JNull), (''availability'', JNull),
      (''brand'', JNull), (''model'', JStr ''N/A''), (''features'', JStr []),
      (''rating'', JNull), (''review_count'', JNull)]"

definition page_plain :: string where
  "page_plain = ''<html><p>no data</p></html>''"

definition ld_json :: json where
  "ld_json = JObj beta_item"

definition page_both :: string where
  "page_both = ''<script id=N>next</script><script type=L>ld</script>''"

definition page_ld :: string where
  "page_ld = ''<script type=L>ld</script>''"

definition page_marker_only :: string where
  \<comment> \<open>contains the product marker and no props marker\<close>
  "page_marker_only = ''<p>'' @ product_marker @ ''1</p>''"

definition demo_env :: env where
  "demo_env =
     \<lparr>bracketed_host_ok = (\<lambda>n. False),
      nfkc_netloc_ok = (\<lambda>n. False),
      find_all_a_href = (\<lambda>html.
         if html = ''search1'' then [''/ip/A/1?x=1'', ''/b/ip/skip'', ''/ip/B/2'', ''/ip/A/1#r'']
         else if html = ''search3'' then [''/ip/C/3'']
         else []),
      re_findall_ip = (\<lambda>html.
         if html = ''search_js'' then [''/ip/D/4?y=2'', ''/ip/E/5'', ''/ip/D/4''] else [''/ip/Z/9'']),
      find_next_data = (\<lambda>html.
         if html = page_both then Some \<lparr>tag_string = Some ''next'', tag_text = ''next''\<rparr> else None),
      find_all_ld_json = (\<lambda>html.
         if html = page_both \<or> html = page_ld
         then [\<lparr>tag_string = Some ''ld'', tag_text = ''ld''\<rparr>] else []),
      json_loads = (\<lambda>t.
         if t = ''next'' then Inr next_json
         else if t = ''ld'' then Inr ld_json
         else Inl JSONDecodeError),
      fetch_search = (\<lambda>page.
         if page = 1 then Inr ''search1''
         else if page = 2 then Inl HTTPError
         else if page = 3 then Inr ''search3''
         else Inr ''search_js''),
      fetch_product = (\<lambda>url.
         if url = ''https://www.walmart.com/ip/A/1'' then Inr page_both
         else if url = ''https://www.walmart.com/ip/B/2'' then Inr '' ''
         else Inr page_ld)\<rparr>"

section \<open>Facts about the string operations\<close>

lemma py_in_sublist: "py_in needle hay \<longleftrightarrow> sublist needle hay"
  by (induction hay) (simp_all add: sublist_Cons_right)

lemma py_find_None: "py_find needle hay = None \<longleftrightarrow> \<not> py_in needle hay"
  by (induction hay) auto

lemma py_lower_char_idem: "py_lower_char (py_lower_char c) = py_lower_char c"
proof -
  define n where "n = (of_char c :: nat)"
  define up where "up = (\<lambda>k::nat. (65 \<le> k \<and> k \<le> 90) \<or> (192 \<le> k \<and> k \<le> 222 \<and> k \<noteq> 215))"
  have eq: "py_lower_char x = (if up (of_char x) then char_of (of_char x + 32 :: nat) else x)" for x
    unfolding py_lower_char_def Let_def up_def ..
  show ?thesis
  proof (cases "up n")
    case True
    then have lt: "n + 32 < 256"
      unfolding up_def by arith
    have c': "py_lower_char c = char_of (n + 32)"
      using True unfolding eq n_def by (simp only: if_True)
    have "(of_char (char_of (n + 32) :: char) :: nat) = (n + 32) mod 256"
      by (rule of_char_of)
    with lt have rt: "(of_char (char_of (n + 32) :: char) :: nat) = n + 32"
      by simp
    have "\<not> up (n + 32)"
      using True unfolding up_def by arith
    then have "py_lower_char (char_of (n + 32)) = char_of (n + 32)"
      unfolding eq rt by (simp only: if_False)
    then show ?thesis
      unfolding c' .
  next
    case False
    then have "py_lower_char c = c"
      unfolding eq n_def by (simp only: if_False)
    then show ?thesis
      by simp
  qed
qed

lemma occurs_lower:
  "sublist (py_lower kw) (py_lower t) \<longleftrightarrow>
   (\<exists>pre w post. t = pre @ w @ post \<and> py_lower w = py_lower kw)"
proof
  assume "sublist (py_lower kw) (py_lower t)"
  then obtain ps ss where eq: "py_lower t = ps @ py_lower kw @ ss"
    unfolding sublist_def by blast
  define pre where "pre = take (length ps) t"
  define w where "w = take (length kw) (drop (length ps) t)"
  define post where "post = drop (length kw) (drop (length ps) t)"
  have "w @ post = drop (length ps) t"
    unfolding w_def post_def by (rule append_take_drop_id)
  then have t: "t = pre @ w @ post"
    unfolding pre_def by simp
  have "py_lower w = take (length kw) (drop (length ps) (py_lower t))"
    unfolding w_def py_lower_def by (simp add: take_map drop_map)
  also have "\<dots> = py_lower kw"
    unfolding eq by (simp add: py_lower_def)
  finally show "\<exists>pre w post. t = pre @ w @ post \<and> py_lower w = py_lower kw"
    using t by blast
next
  assume "\<exists>pre w post. t = pre @ w @ post \<and> py_lower w = py_lower kw"
  then obtain pre w post where "t = pre @ w @ post" "py_lower w = py_lower kw"
    by blast
  then have "py_lower t = py_lower pre @ py_lower kw @ py_lower post"
    by (simp add: py_lower_def)
  then show "sublist (py_lower kw) (py_lower t)"
    unfolding sublist_def by blast
qed

lemma is_bot_page_iff:
  "is_bot_page html \<longleftrightarrow>
   (\<exists>kw \<in> set BOT_CHECK_KEYWORDS. \<exists>pre w post.
      take 2000 html = pre @ w @ post \<and> py_lower w = py_lower kw)"
  unfolding is_bot_page_def Let_def list_ex_iff py_in_sublist occurs_lower ..

lemma lowered_keywords:
  "map py_lower BOT_CHECK_KEYWORDS =
     [''are you a human'', ''captcha'', ''bot'', ''please verify'', ''verify you are a human'',
      ''recaptcha'', ''access denied'', ''unusual traffic'']"
  by code_simp

lemma is_bot_page_lowered:
  "is_bot_page html \<longleftrightarrow>
   (\<exists>k \<in> set (map py_lower BOT_CHECK_KEYWORDS). sublist k (py_lower (take 2000 html)))"
  by (simp add: is_bot_page_def list_ex_iff py_in_sublist)

lemma is_bot_page_only_prefix:
  "2000 \<le> length filler \<Longrightarrow> is_bot_page (filler @ tail) = is_bot_page filler"
  by (simp add: is_bot_page_def)

lemma sublist_replicate_set: "sublist k (replicate m c) \<Longrightarrow> set k \<subseteq> {c}"
  using set_mono_sublist [of k "replicate m c"] by auto

lemma not_bot_page_replicate_x: "\<not> is_bot_page (replicate n CHR ''x'')"
proof
  assume "is_bot_page (replicate n CHR ''x'')"
  then obtain k where k: "k \<in> set (map py_lower BOT_CHECK_KEYWORDS)"
      and sub: "sublist k (py_lower (take 2000 (replicate n CHR ''x'')))"
    unfolding is_bot_page_lowered by blast
  have "py_lower_char CHR ''x'' = CHR ''x''"
    by code_simp
  then have "py_lower (take 2000 (replicate n CHR ''x'')) = replicate (min 2000 n) CHR ''x''"
    by (simp add: py_lower_def min.commute)
  with sub have "set k \<subseteq> {CHR ''x''}"
    using sublist_replicate_set by metis
  with k show False
    unfolding lowered_keywords by auto
qed

section \<open>Claim C8: what the bot-challenge detector inspects\<close>

text \<open>
  C8. \<^const>\<open>is_bot_page\<close> is true exactly when one of the fixed phrases occurs, compared
  case-insensitively, as a substring of the first 2000 characters of the page. In particular
  it is true when the first 2000 characters contain ``please verify you are a human'' in any
  mix of cases, and what follows character 2000 never changes the answer, so a page whose
  first 2000 characters hold no phrase is not a challenge page whatever comes after.
\<close>

theorem is_bot_page_prefix_semantics:
  "(is_bot_page html \<longleftrightarrow>
      (\<exists>kw \<in> set BOT_CHECK_KEYWORDS. \<exists>p v q.
         take 2000 html = p @ v @ q \<and> py_lower v = py_lower kw))
   \<and> (length (pre @ w) \<le> 2000 \<and> py_lower w = ''please verify you are a human''
        \<longrightarrow> is_bot_page (pre @ w @ post))
   \<and> (2000 \<le> length filler \<longrightarrow> is_bot_page (filler @ tail) = is_bot_page filler)"
proof (intro conjI impI)
  show "is_bot_page html \<longleftrightarrow>
      (\<exists>kw \<in> set BOT_CHECK_KEYWORDS. \<exists>p v q.
         take 2000 html = p @ v @ q \<and> py_lower v = py_lower kw)"
    by (rule is_bot_page_iff)
next
  assume a: "length (pre @ w) \<le> 2000 \<and> py_lower w = ''please verify you are a human''"
  define v where "v = take 13 w"
  define q where "q = drop 13 w @ take (2000 - length (pre @ w)) post"
  from a have "length pre + length w \<le> 2000"
    by simp
  then have "length pre \<le> 2000" "length w \<le> 2000 - length pre"
    by arith+
  then have "take 2000 (pre @ w @ post) = pre @ w @ take (2000 - length (pre @ w)) post"
    by simp
  then have split: "take 2000 (pre @ w @ post) = pre @ v @ q"
    unfolding v_def q_def by simp
  have "py_lower v = take 13 (py_lower w)"
    unfolding v_def py_lower_def by (simp add: take_map)
  also have "\<dots> = ''please verify''"
    using a by simp
  also have "\<dots> = py_lower ''please verify''"
    by code_simp
  finally have low: "py_lower v = py_lower ''please verify''" .
  have "''please verify'' \<in> set BOT_CHECK_KEYWORDS"
    by (simp add: BOT_CHECK_KEYWORDS_def)
  with split low show "is_bot_page (pre @ w @ post)"
    unfolding is_bot_page_iff by blast
next
  assume "2000 \<le> length filler"
  then show "is_bot_page (filler @ tail) = is_bot_page filler"
    by (rule is_bot_page_only_prefix)
qed

theorem is_bot_page_prefix_semantics_witness:
  "is_bot_page (''<html> '' @ ''PleAse VeriFY You Are A HUMAN'' @ ''</html>'')
   \<and> \<not> is_bot_page (replicate 2000 CHR ''x'' @ ''PleAse VeriFY You Are A HUMAN'')"
proof
  have len: "length (''<html> '' @ ''PleAse VeriFY You Are A HUMAN'') \<le> 2000"
    by simp
  have low: "py_lower ''PleAse VeriFY You Are A HUMAN'' = ''please verify you are a human''"
    by code_simp
  from len low
  show "is_bot_page (''<html> '' @ ''PleAse VeriFY You Are A HUMAN'' @ ''</html>'')"
    using is_bot_page_prefix_semantics
      [of _ "''<html> ''" "''PleAse VeriFY You Are A HUMAN''" "''</html>''"]
    by blast
next
  have "2000 \<le> length (replicate 2000 CHR ''x'')"
    by simp
  then have "is_bot_page (replicate 2000 CHR ''x'' @ ''PleAse VeriFY You Are A HUMAN'')
      = is_bot_page (replicate 2000 CHR ''x'')"
    using is_bot_page_prefix_semantics
      [of _ _ _ _ "replicate 2000 CHR ''x''" "''PleAse VeriFY You Are A HUMAN''"]
    by blast
  then show "\<not> is_bot_page (replicate 2000 CHR ''x'' @ ''PleAse VeriFY You Are A HUMAN'')"
    using not_bot_page_replicate_x by simp
qed

section \<open>Facts about the extraction strategies\<close>

lemma ebind_Inl [simp]: "ebind (Inl e) f = Inl e"
  by (simp add: ebind_def)

lemma ebind_Inr [simp]: "ebind (Inr v) f = f v"
  by (simp add: ebind_def)

lemma ebind_eq_Inr: "ebind m f = Inr y \<longleftrightarrow> (\<exists>v. m = Inr v \<and> f v = Inr y)"
  by (cases m) simp_all

lemma py_get_obj [simp]:
  "py_get (JObj kvs) key dflt = Inr (case map_of kvs key of Some v \<Rightarrow> v | None \<Rightarrow> dflt)"
  by (simp add: py_get_def)

lemma next_data_info_keys: "next_data_info product reviews = Inr i \<Longrightarrow> map fst i = RECORD_KEYS"
  unfolding next_data_info_def ebind_eq_Inr RECORD_KEYS_def by auto

lemma heuristic_info_keys: "heuristic_info initial_data product = Inr i \<Longrightarrow> map fst i = RECORD_KEYS"
  unfolding heuristic_info_def ebind_eq_Inr RECORD_KEYS_def by auto

lemma ld_item_info_keys: "ld_item_info item = Inr i \<Longrightarrow> map fst i = RECORD_KEYS"
  unfolding ld_item_info_def Let_def ebind_eq_Inr RECORD_KEYS_def by auto

lemma parse_next_data_keys: "parse_next_data E t = Inr i \<Longrightarrow> map fst i = RECORD_KEYS"
  unfolding parse_next_data_def ebind_eq_Inr
  by (auto split: if_splits dest: next_data_info_keys)

lemma try_next_data_keys: "try_next_data E html = Some i \<Longrightarrow> map fst i = RECORD_KEYS"
  unfolding try_next_data_def Let_def
  by (auto split: option.splits if_splits sum.splits dest: parse_next_data_keys)

lemma ld_candidates_keys: "ld_candidates xs = Inr (Some i) \<Longrightarrow> map fst i = RECORD_KEYS"
proof (induction xs)
  case Nil
  then show ?case by simp
next
  case (Cons item rest)
  then show ?case
    by (auto split: json.splits sum.splits bool.splits if_splits dest: ld_item_info_keys)
qed

lemma ld_scripts_keys: "ld_scripts E ts = Inr (Some i) \<Longrightarrow> map fst i = RECORD_KEYS"
proof (induction ts)
  case Nil
  then show ?case by simp
next
  case (Cons s rest)
  then show ?case
    by (auto simp: Let_def split: if_splits sum.splits option.splits dest: ld_candidates_keys)
qed

lemma heuristic_parse_keys: "heuristic_parse E t = Inr (Some i) \<Longrightarrow> map fst i = RECORD_KEYS"
  unfolding heuristic_parse_def
  by (auto simp: ebind_eq_Inr split: if_splits dest: heuristic_info_keys)

lemma try_heuristic_keys: "try_heuristic E html = Some i \<Longrightarrow> map fst i = RECORD_KEYS"
  unfolding try_heuristic_def Let_def
  by (auto split: if_splits option.splits sum.splits dest: heuristic_parse_keys)

lemma prod_info_html_keys: "prod_info_html E html = Inr i \<Longrightarrow> map fst i = RECORD_KEYS"
  unfolding prod_info_html_def
  by (auto split: option.splits sum.splits
      dest: try_next_data_keys ld_scripts_keys try_heuristic_keys)

lemma try_heuristic_needs_props: "\<not> py_in props_marker html \<Longrightarrow> try_heuristic E html = None"
  using py_find_None [of props_marker html] by (simp add: try_heuristic_def)

lemma all_strategies_fail:
  "try_next_data E html = None \<Longrightarrow> ld_scripts E (find_all_ld_json E html) = Inr None \<Longrightarrow>
   try_heuristic E html = None \<Longrightarrow>
   prod_info_html E html = Inl (RuntimeError (no_data_message @ page_sample html))"
  by (simp add: prod_info_html_def)

lemma parse_next_data_env:
  "json_loads E' = json_loads E \<Longrightarrow> parse_next_data E' t = parse_next_data E t"
  by (simp add: parse_next_data_def)

lemma strategy1_wins:
  "find_next_data E html = Some script_next \<Longrightarrow> script_text_of script_next \<noteq> [] \<Longrightarrow>
   parse_next_data E (script_text_of script_next) = Inr i \<Longrightarrow> prod_info_html E html = Inr i"
  by (simp add: prod_info_html_def try_next_data_def)

lemma py_strip_length: "length (py_strip s) \<le> length s"
proof -
  have "length (py_strip s) \<le> length (rev (dropWhile py_isspace s))"
    unfolding py_strip_def
    using length_dropWhile_le [of py_isspace "rev (dropWhile py_isspace s)"] by simp
  also have "\<dots> \<le> length s"
    by (simp add: length_dropWhile_le)
  finally show ?thesis .
qed

lemma dropWhile_all: "(\<forall>x \<in> set (dropWhile P xs). P x) \<longleftrightarrow> (\<forall>x \<in> set xs. P x)"
proof
  assume a: "\<forall>x \<in> set (dropWhile P xs). P x"
  have "dropWhile P xs = []"
  proof (rule ccontr)
    assume ne: "dropWhile P xs \<noteq> []"
    then have "\<not> P (hd (dropWhile P xs))"
      by (rule hd_dropWhile)
    moreover have "hd (dropWhile P xs) \<in> set (dropWhile P xs)"
      using ne by simp
    ultimately show False
      using a by blast
  qed
  then show "\<forall>x \<in> set xs. P x"
    by (simp add: dropWhile_eq_Nil_conv)
next
  assume "\<forall>x \<in> set xs. P x"
  then show "\<forall>x \<in> set (dropWhile P xs). P x"
    by (meson set_dropWhileD)
qed

lemma py_strip_empty: "py_strip s = [] \<longleftrightarrow> (\<forall>c \<in> set s. py_isspace c)"
proof -
  have "py_strip s = [] \<longleftrightarrow> (\<forall>c \<in> set (rev (dropWhile py_isspace s)). py_isspace c)"
    unfolding py_strip_def by (simp add: dropWhile_eq_Nil_conv)
  also have "\<dots> \<longleftrightarrow> (\<forall>c \<in> set (dropWhile py_isspace s). py_isspace c)"
    by simp
  also have "\<dots> \<longleftrightarrow> (\<forall>c \<in> set s. py_isspace c)"
    by (rule dropWhile_all)
  finally show ?thesis .
qed

lemma py_strip_set: "set (py_strip s) \<subseteq> set s"
proof
  fix c
  assume "c \<in> set (py_strip s)"
  then have "c \<in> set (dropWhile py_isspace (rev (dropWhile py_isspace s)))"
    unfolding py_strip_def by simp
  then have "c \<in> set (rev (dropWhile py_isspace s))"
    by (rule set_dropWhileD)
  then have "c \<in> set (dropWhile py_isspace s)"
    by simp
  then show "c \<in> set s"
    by (rule set_dropWhileD)
qed

lemma newline_space: "py_isspace (CHR 0x0A)" "py_isspace CHR '' ''" "CHR 0x0A \<noteq> CHR '' ''"
  by code_simp+

lemma page_sample_length: "length (page_sample html) \<le> 1200"
proof -
  have "length (page_sample html) \<le> length (py_replace_char (CHR 0x0A) CHR '' '' (take 1200 html))"
    unfolding page_sample_def by (rule py_strip_length)
  also have "\<dots> \<le> 1200"
    by (simp add: py_replace_char_def)
  finally show ?thesis .
qed

lemma page_sample_nonempty:
  "page_sample html \<noteq> [] \<longleftrightarrow> (\<exists>c \<in> set (take 1200 html). \<not> py_isspace c)"
proof -
  define f where "f = (\<lambda>c. if c = CHR 0x0A then CHR '' '' else c)"
  have sp: "py_isspace (f c) \<longleftrightarrow> py_isspace c" for c
    unfolding f_def using newline_space by simp
  have "py_replace_char (CHR 0x0A) CHR '' '' (take 1200 html) = map f (take 1200 html)"
    unfolding py_replace_char_def f_def ..
  then have "(\<forall>c \<in> set (py_replace_char (CHR 0x0A) CHR '' '' (take 1200 html)). py_isspace c)
      \<longleftrightarrow> (\<forall>c \<in> set (take 1200 html). py_isspace (f c))"
    by simp
  then show ?thesis
    unfolding page_sample_def py_strip_empty sp by blast
qed

lemma page_sample_no_newline: "CHR 0x0A \<notin> set (page_sample html)"
proof
  assume "CHR 0x0A \<in> set (page_sample html)"
  then have "CHR 0x0A \<in> set (py_replace_char (CHR 0x0A) CHR '' '' (take 1200 html))"
    unfolding page_sample_def using py_strip_set by blast
  then show False
    using newline_space(3) by (auto simp: py_replace_char_def split: if_splits)
qed

section \<open>Claim C1: the framework JSON wins over linked data\<close>

text \<open>
  C1. When the page has a \<^verbatim>\<open>__NEXT_DATA__\<close> script with text that
  \<^const>\<open>parse_next_data\<close> turns into a record, extraction returns exactly that record, and
  it returns it whatever the linked-data scripts of the page are: the answer of the
  linked-data lookup is never used. Behind the bot gate the same holds for
  \<^const>\<open>prod_info\<close>.
\<close>

theorem strategy1_priority:
  "find_next_data E html = Some script_next \<Longrightarrow> script_text_of script_next \<noteq> [] \<Longrightarrow>
   parse_next_data E (script_text_of script_next) = Inr i \<Longrightarrow>
     prod_info_html E html = Inr i
     \<and> prod_info_html (E\<lparr>find_all_ld_json := ld\<rparr>) html = Inr i
     \<and> (fetch_product E url = Inr html \<and> \<not> is_bot_page html \<longrightarrow> prod_info E url = Inr i)"
proof (intro conjI impI)
  assume a: "find_next_data E html = Some script_next" "script_text_of script_next \<noteq> []"
    "parse_next_data E (script_text_of script_next) = Inr i"
  then show r: "prod_info_html E html = Inr i"
    by (rule strategy1_wins)
  have "parse_next_data (E\<lparr>find_all_ld_json := ld\<rparr>) (script_text_of script_next) = Inr i"
    using a(3) parse_next_data_env [of "E\<lparr>find_all_ld_json := ld\<rparr>" E] by simp
  moreover have "find_next_data (E\<lparr>find_all_ld_json := ld\<rparr>) html = Some script_next"
    using a(1) by simp
  ultimately show "prod_info_html (E\<lparr>find_all_ld_json := ld\<rparr>) html = Inr i"
    using a(2) by (rule strategy1_wins [rotated 2])
  assume "fetch_product E url = Inr html \<and> \<not> is_bot_page html"
  with r show "prod_info E url = Inr i"
    by (simp add: prod_info_def)
qed

theorem strategy1_priority_witness:
  "prod_info_html demo_env page_both = Inr alpha_record
   \<and> prod_info_html (demo_env\<lparr>find_all_ld_json := (\<lambda>h. [])\<rparr>) page_both = Inr alpha_record
   \<and> prod_info demo_env ''https://www.walmart.com/ip/A/1'' = Inr alpha_record
   \<and> prod_info_html demo_env page_ld = Inr beta_record"
proof -
  have f: "find_next_data demo_env page_both = Some \<lparr>tag_string = Some ''next'', tag_text = ''next''\<rparr>"
    by code_simp
  have t: "script_text_of \<lparr>tag_string = Some ''next'', tag_text = ''next''\<rparr> \<noteq> []"
    by code_simp
  have p: "parse_next_data demo_env (script_text_of \<lparr>tag_string = Some ''next'', tag_text = ''next''\<rparr>)
      = Inr alpha_record"
    by code_simp
  have g: "fetch_product demo_env ''https://www.walmart.com/ip/A/1'' = Inr page_both
      \<and> \<not> is_bot_page page_both"
    by code_simp
  have l: "prod_info_html demo_env page_ld = Inr beta_record"
    by code_simp
  from strategy1_priority [OF f t p, of "\<lambda>h. []" "''https://www.walmart.com/ip/A/1''"] g l
  show ?thesis
    by blast
qed

section \<open>Claim C10: the heuristic needs the props marker\<close>

text \<open>
  C10. On a page whose text does not contain the opening marker of the framework blob,
  strategy 3 produces no record, even when the product marker is there; so when
  strategies 1 and 2 have also produced nothing, extraction ends with the
  no-structured-data error.
\<close>

theorem heuristic_requires_props_marker:
  "\<not> py_in props_marker html \<Longrightarrow>
     try_heuristic E html = None
     \<and> (try_next_data E html = None \<and> ld_scripts E (find_all_ld_json E html) = Inr None
        \<longrightarrow> prod_info_html E html = Inl (RuntimeError (no_data_message @ page_sample html)))"
  using try_heuristic_needs_props [of html E] all_strategies_fail [of E html] by blast

theorem heuristic_requires_props_marker_witness:
  "py_in product_marker page_marker_only
   \<and> try_heuristic demo_env page_marker_only = None
   \<and> prod_info_html demo_env page_marker_only
       = Inl (RuntimeError (no_data_message @ page_sample page_marker_only))"
proof -
  have m: "py_in product_marker page_marker_only"
    by code_simp
  have n: "\<not> py_in props_marker page_marker_only"
    by code_simp
  have s: "try_next_data demo_env page_marker_only = None
      \<and> ld_scripts demo_env (find_all_ld_json demo_env page_marker_only) = Inr None"
    by code_simp
  from heuristic_requires_props_marker [OF n, of demo_env] m s show ?thesis
    by blast
qed

section \<open>Claim C9: the error raised when every strategy fails\<close>

text \<open>
  C9 as stated asks for a non-empty sample on every non-empty page. The page made of one
  space is non-empty, every strategy fails on it, and the sample is empty.
\<close>

theorem empty_sample_counterexample:
  "'' '' \<noteq> []
   \<and> try_next_data demo_env '' '' = None
   \<and> ld_scripts demo_env (find_all_ld_json demo_env '' '') = Inr None
   \<and> try_heuristic demo_env '' '' = None
   \<and> prod_info_html demo_env '' '' = Inl (RuntimeError no_data_message)
   \<and> page_sample '' '' = []"
  by code_simp

text \<open>
  C9, amended. When the three strategies produce nothing, extraction raises the
  no-structured-data error whose message ends with the sample; the sample is the first
  1200 characters of the page with every newline replaced by a space and the whitespace at
  both ends removed, so it has at most 1200 characters and no newline, and it is non-empty
  exactly when one of the first 1200 characters is not whitespace. \<^const>\<open>prod_info\<close>
  raises the same error for a fetched page that passes the bot gate.
\<close>

theorem no_data_error_sample:
  "try_next_data E html = None \<Longrightarrow> ld_scripts E (find_all_ld_json E html) = Inr None \<Longrightarrow>
   try_heuristic E html = None \<Longrightarrow>
     prod_info_html E html = Inl (RuntimeError (no_data_message @ page_sample html))
     \<and> page_sample html = py_strip (py_replace_char (CHR 0x0A) CHR '' '' (take 1200 html))
     \<and> length (page_sample html) \<le> 1200
     \<and> CHR 0x0A \<notin> set (page_sample html)
     \<and> (page_sample html \<noteq> [] \<longleftrightarrow> (\<exists>c \<in> set (take 1200 html). \<not> py_isspace c))
     \<and> (fetch_product E url = Inr html \<and> \<not> is_bot_page html
        \<longrightarrow> prod_info E url = Inl (RuntimeError (no_data_message @ page_sample html)))"
proof (intro conjI impI)
  assume "try_next_data E html = None" "ld_scripts E (find_all_ld_json E html) = Inr None"
    "try_heuristic E html = None"
  then show r: "prod_info_html E html = Inl (RuntimeError (no_data_message @ page_sample html))"
    by (rule all_strategies_fail)
  show "page_sample html = py_strip (py_replace_char (CHR 0x0A) CHR '' '' (take 1200 html))"
    by (rule page_sample_def)
  show "length (page_sample html) \<le> 1200"
    by (rule page_sample_length)
  show "CHR 0x0A \<notin> set (page_sample html)"
    by (rule page_sample_no_newline)
  show "page_sample html \<noteq> [] \<longleftrightarrow> (\<exists>c \<in> set (take 1200 html). \<not> py_isspace c)"
    by (rule page_sample_nonempty)
  assume "fetch_product E url = Inr html \<and> \<not> is_bot_page html"
  with r show "prod_info E url = Inl (RuntimeError (no_data_message @ page_sample html))"
    by (simp add: prod_info_def)
qed

theorem no_data_error_sample_witness:
  "prod_info_html demo_env page_plain = Inl (RuntimeError (no_data_message @ page_plain))
   \<and> page_sample page_plain = page_plain
   \<and> page_sample page_plain \<noteq> []"
proof -
  have a: "try_next_data demo_env page_plain = None"
    by code_simp
  have b: "ld_scripts demo_env (find_all_ld_json demo_env page_plain) = Inr None"
    by code_simp
  have c: "try_heuristic demo_env page_plain = None"
    by code_simp
  have s: "page_sample page_plain = page_plain"
    by code_simp
  have n: "page_plain \<noteq> []"
    by code_simp
  from no_data_error_sample [OF a b c] s n show ?thesis
    by simp
qed

section \<open>Claim C3: the shape of a returned record\<close>

text \<open>
  C3 asks that every returned record has the eight keys and that rating and review count
  are 0 when the source lacks them. Strategies 1 and 3 pass the default 0 to \<^verbatim>\<open>get\<close>;
  strategy 2 reads \<^verbatim>\<open>ratingValue\<close> and \<^verbatim>\<open>reviewCount\<close> with no default. The linked-data
  item \<^const>\<open>beta_item\<close> has no aggregate rating, and the record the code returns for its
  page has null, not 0, for both rating and review count.
\<close>

theorem ld_defaults_counterexample:
  "map_of beta_item ''aggregateRating'' = None
   \<and> prod_info_html demo_env page_ld =
       Inr [(''name'', JStr ''Beta''), (''price'', JNull), (''availability'', JNull),
            (''brand'', JNull), (''model'', JStr ''N/A''), (''features'', JStr []),
            (''rating'', JNull), (''review_count'', JNull)]"
  by code_simp

text \<open>
  What holds of every record: it has exactly the eight keys, in the order of
  \<^const>\<open>RECORD_KEYS\<close>. The model number is "N/A" when the product has no
  \<^verbatim>\<open>modelNumber\<close> (strategies 1 and 3) or the item no \<^verbatim>\<open>sku\<close> (strategy 2). The review
  count is 0 in strategy 1 when the product has neither \<^verbatim>\<open>numReviews\<close> nor
  \<^verbatim>\<open>reviewCount\<close>, and in strategy 3 when it has no \<^verbatim>\<open>numReviews\<close>; the rating is 0 in
  strategy 3 when the data has no \<^verbatim>\<open>reviews\<close> or its \<^verbatim>\<open>reviews\<close> dict has no
  \<^verbatim>\<open>customerRating\<close>. In strategy 2 both are null when the item has no
  \<^verbatim>\<open>aggregateRating\<close>.
\<close>

theorem record_shape:
  "(prod_info_html E html = Inr i \<longrightarrow> map fst i = RECORD_KEYS)
   \<and> (next_data_info (JObj pk) reviews = Inr i1 \<and> map_of pk ''modelNumber'' = None
        \<longrightarrow> map_of i1 ''model'' = Some (JStr ''N/A''))
   \<and> (next_data_info (JObj pk) reviews = Inr i1
        \<and> map_of pk ''numReviews'' = None \<and> map_of pk ''reviewCount'' = None
        \<longrightarrow> map_of i1 ''review_count'' = Some (JInt 0))
   \<and> (ld_item_info (JObj kvs) = Inr i2 \<and> map_of kvs ''sku'' = None
        \<longrightarrow> map_of i2 ''model'' = Some (JStr ''N/A''))
   \<and> (ld_item_info (JObj kvs) = Inr i2 \<and> map_of kvs ''aggregateRating'' = None
        \<longrightarrow> map_of i2 ''rating'' = Some JNull \<and> map_of i2 ''review_count'' = Some JNull)
   \<and> (heuristic_info (JObj dk) (JObj hk) = Inr i3 \<and> map_of hk ''modelNumber'' = None
        \<longrightarrow> map_of i3 ''model'' = Some (JStr ''N/A''))
   \<and> (heuristic_info (JObj dk) (JObj hk) = Inr i3 \<and> map_of hk ''numReviews'' = None
        \<longrightarrow> map_of i3 ''review_count'' = Some (JInt 0))
   \<and> (heuristic_info (JObj dk) (JObj hk) = Inr i3
        \<and> (map_of dk ''reviews'' = None
             \<or> (\<exists>rk. map_of dk ''reviews'' = Some (JObj rk) \<and> map_of rk ''customerRating'' = None))
        \<longrightarrow> map_of i3 ''rating'' = Some (JInt 0))"
proof (intro conjI impI)
  assume "prod_info_html E html = Inr i"
  then show "map fst i = RECORD_KEYS"
    by (rule prod_info_html_keys)
next
  assume "next_data_info (JObj pk) reviews = Inr i1 \<and> map_of pk ''modelNumber'' = None"
  then show "map_of i1 ''model'' = Some (JStr ''N/A'')"
    unfolding next_data_info_def by (auto simp: ebind_eq_Inr)
next
  assume "next_data_info (JObj pk) reviews = Inr i1
        \<and> map_of pk ''numReviews'' = None \<and> map_of pk ''reviewCount'' = None"
  then show "map_of i1 ''review_count'' = Some (JInt 0)"
    unfolding next_data_info_def by (auto simp: ebind_eq_Inr py_or_else_def)
next
  assume "ld_item_info (JObj kvs) = Inr i2 \<and> map_of kvs ''sku'' = None"
  then show "map_of i2 ''model'' = Some (JStr ''N/A'')"
    unfolding ld_item_info_def Let_def by (auto simp: ebind_eq_Inr)
next
  assume a: "ld_item_info (JObj kvs) = Inr i2 \<and> map_of kvs ''aggregateRating'' = None"
  then show "map_of i2 ''rating'' = Some JNull"
    unfolding ld_item_info_def Let_def by (auto simp: ebind_eq_Inr py_or_else_def)
  from a show "map_of i2 ''review_count'' = Some JNull"
    unfolding ld_item_info_def Let_def by (auto simp: ebind_eq_Inr py_or_else_def)
next
  assume "heuristic_info (JObj dk) (JObj hk) = Inr i3 \<and> map_of hk ''modelNumber'' = None"
  then show "map_of i3 ''model'' = Some (JStr ''N/A'')"
    unfolding heuristic_info_def by (auto simp: ebind_eq_Inr)
next
  assume "heuristic_info (JObj dk) (JObj hk) = Inr i3 \<and> map_of hk ''numReviews'' = None"
  then show "map_of i3 ''review_count'' = Some (JInt 0)"
    unfolding heuristic_info_def by (auto simp: ebind_eq_Inr)
next
  assume "heuristic_info (JObj dk) (JObj hk) = Inr i3
        \<and> (map_of dk ''reviews'' = None
             \<or> (\<exists>rk. map_of dk ''reviews'' = Some (JObj rk) \<and> map_of rk ''customerRating'' = None))"
  then show "map_of i3 ''rating'' = Some (JInt 0)"
    unfolding heuristic_info_def by (auto simp: ebind_eq_Inr)
qed

theorem record_shape_witness:
  "map fst alpha_record = RECORD_KEYS
   \<and> map_of alpha_record ''model'' = Some (JStr ''N/A'')
   \<and> map_of alpha_record ''review_count'' = Some (JInt 0)
   \<and> map_of beta_record ''model'' = Some (JStr ''N/A'')
   \<and> map_of beta_record ''rating'' = Some JNull
   \<and> map_of beta_record ''review_count'' = Some JNull
   \<and> map_of (alpha_record[6 := (''rating'', JInt 0)]) ''rating'' = Some (JInt 0)"
proof -
  have a: "prod_info_html demo_env page_both = Inr alpha_record"
    by code_simp
  have b: "next_data_info (JObj alpha_product) (JObj []) = Inr alpha_record"
    by code_simp
  have c: "ld_item_info (JObj beta_item) = Inr beta_record"
    by code_simp
  have d: "heuristic_info (JObj alpha_data) (JObj alpha_product)
      = Inr (alpha_record[6 := (''rating'', JInt 0)])"
    by code_simp
  have e: "map_of alpha_product ''modelNumber'' = None \<and> map_of alpha_product ''numReviews'' = None
      \<and> map_of alpha_product ''reviewCount'' = None \<and> map_of beta_item ''sku'' = None
      \<and> map_of beta_item ''aggregateRating'' = None \<and> map_of alpha_data ''reviews'' = None"
    by code_simp
  from record_shape [of demo_env page_both alpha_record alpha_product "JObj []" alpha_record
      beta_item beta_record alpha_data alpha_product "alpha_record[6 := (''rating'', JInt 0)]"]
    a b c d e
  show ?thesis
    by blast
qed

section \<open>Facts about link extraction\<close>

lemma canonical_of_href_total: "\<exists>u. canonical_of_href E href = Inr u"
  unfolding canonical_of_href_def by (simp split: sum.split)

lemma anchor_urls_total: "\<exists>us. anchor_urls E hrefs = Inr us"
proof (induction hrefs)
  case Nil
  show ?case by simp
next
  case (Cons href rest)
  from Cons obtain us where us: "anchor_urls E rest = Inr us" by auto
  obtain u where u: "canonical_of_href E href = Inr u"
    using canonical_of_href_total by auto
  show ?case by (simp add: us u)
qed

lemma bracket_error_regex:
  "bracket_error (E\<lparr>re_findall_ip := re\<rparr>) n = bracket_error E n"
  by (simp add: bracket_error_def)

lemma checknetloc_error_regex:
  "checknetloc_error (E\<lparr>re_findall_ip := re\<rparr>) n = checknetloc_error E n"
  by (simp add: checknetloc_error_def)

lemma urlsplit_regex: "urlsplit (E\<lparr>re_findall_ip := re\<rparr>) u = urlsplit E u"
  unfolding urlsplit_def bracket_error_regex checknetloc_error_regex by (rule refl)

lemma canonical_of_href_regex:
  "canonical_of_href (E\<lparr>re_findall_ip := re\<rparr>) href = canonical_of_href E href"
  unfolding canonical_of_href_def normalize_product_url_def urlsplit_regex by (rule refl)

lemma anchor_urls_regex: "anchor_urls (E\<lparr>re_findall_ip := re\<rparr>) hrefs = anchor_urls E hrefs"
  by (induction hrefs) (auto simp: canonical_of_href_regex split: sum.splits)

lemma dedupe_loop_set: "set (dedupe_loop seen deduped us) = set deduped \<union> (set us - seen)"
  by (induction us arbitrary: seen deduped) auto

lemma dedupe_loop_distinct:
  "distinct deduped \<Longrightarrow> set deduped \<subseteq> seen \<Longrightarrow> distinct (dedupe_loop seen deduped us)"
proof (induction us arbitrary: seen deduped)
  case Nil
  then show ?case by simp
next
  case (Cons u us)
  show ?case
  proof (cases "u \<in> seen")
    case True
    with Cons.IH [OF Cons.prems] show ?thesis by simp
  next
    case False
    with Cons.prems have "distinct (deduped @ [u])" "set (deduped @ [u]) \<subseteq> insert u seen"
      by auto
    from Cons.IH [OF this] False show ?thesis by simp
  qed
qed

lemma first_index_in_prefix: "a \<in> set pre \<Longrightarrow> first_index (pre @ r) a < length pre"
proof (induction pre)
  case Nil
  then show ?case by simp
next
  case (Cons x pre)
  then show ?case by (cases "x = a") (auto simp: first_index_def)
qed

lemma first_index_after_prefix: "u \<notin> set pre \<Longrightarrow> first_index (pre @ u # r) u = length pre"
  by (induction pre) (auto simp: first_index_def)

lemma dedupe_loop_order:
  "set deduped = set pre \<Longrightarrow> seen = set pre
   \<Longrightarrow> sorted_wrt (\<lambda>a b. first_index (pre @ us) a < first_index (pre @ us) b) deduped
   \<Longrightarrow> sorted_wrt (\<lambda>a b. first_index (pre @ us) a < first_index (pre @ us) b)
         (dedupe_loop seen deduped us)"
proof (induction us arbitrary: pre deduped seen)
  case Nil
  then show ?case by simp
next
  case (Cons u us)
  let ?P = "\<lambda>a b. first_index (pre @ u # us) a < first_index (pre @ u # us) b"
  have app: "(pre @ [u]) @ us = pre @ u # us" by simp
  show ?case
  proof (cases "u \<in> seen")
    case True
    with Cons.prems have s: "set deduped = set (pre @ [u])" "seen = set (pre @ [u])" by auto
    from Cons.prems(3) have "sorted_wrt (\<lambda>a b. first_index ((pre @ [u]) @ us) a
        < first_index ((pre @ [u]) @ us) b) deduped"
      unfolding app .
    from Cons.IH [OF s this] True show ?thesis unfolding app by simp
  next
    case False
    with Cons.prems have notin: "u \<notin> set pre" by simp
    have s: "set (deduped @ [u]) = set (pre @ [u])" "insert u seen = set (pre @ [u])"
      using Cons.prems by auto
    have "\<forall>a\<in>set deduped. ?P a u"
    proof
      fix a assume "a \<in> set deduped"
      then have "a \<in> set pre" using Cons.prems by simp
      then have "first_index (pre @ u # us) a < length pre" by (rule first_index_in_prefix)
      then show "?P a u" using first_index_after_prefix [OF notin, of us] by simp
    qed
    with Cons.prems(3) have "sorted_wrt ?P (deduped @ [u])"
      by (simp add: sorted_wrt_append)
    then have "sorted_wrt (\<lambda>a b. first_index ((pre @ [u]) @ us) a
        < first_index ((pre @ [u]) @ us) b) (deduped @ [u])"
      unfolding app .
    from Cons.IH [OF s this] False show ?thesis unfolding app by simp
  qed
qed

lemma dedupe_first_occurrence:
  "sorted_wrt (\<lambda>a b. first_index us a < first_index us b) (dedupe_loop {} [] us)"
  using dedupe_loop_order [of "[]" "[]" "{}" us] by simp

lemma get_link_html_total: "\<exists>out. get_link_html E html = Inr out"
proof -
  obtain anchors where "anchor_urls E (find_all_a_href E html) = Inr anchors"
    using anchor_urls_total by blast
  then show ?thesis unfolding get_link_html_def product_urls_def by simp
qed

lemma get_link_failure_iff:
  "(\<exists>e. get_link E page = Inl e)
   \<longleftrightarrow> (case fetch_search E page of Inl e \<Rightarrow> True | Inr html \<Rightarrow> is_bot_page html)"
proof (cases "fetch_search E page")
  case (Inl e)
  then show ?thesis unfolding get_link_def by simp
next
  case (Inr html)
  obtain out where "get_link_html E html = Inr out" using get_link_html_total by blast
  with Inr show ?thesis unfolding get_link_def by simp
qed

section \<open>Facts about the search pipeline\<close>

lemma page_loop_failing_page:
  "get_link E k = Inl e \<Longrightarrow>
   page_loop E m (xs @ k # ys) st =
     (case page_loop E m xs st of
        (st', log) \<Rightarrow>
          if log = [] \<and> (xs = [] \<or> int (length (fst st')) < m)
          then (st', [SearchPageFailed k e]) else (st', log))"
proof (induction xs arbitrary: st)
  case Nil
  then show ?case by simp
next
  case (Cons x xs)
  show ?case
  proof (cases "get_link E x")
    case (Inl e')
    then show ?thesis by simp
  next
    case (Inr urls)
    show ?thesis
    proof (cases "m \<le> int (length (fst (add_urls m urls st)))")
      case True
      with Inr show ?thesis by simp
    next
      case False
      have "page_loop E m ((x # xs) @ k # ys) st = page_loop E m (xs @ k # ys) (add_urls m urls st)"
        using Inr False by simp
      also have "\<dots> = (case page_loop E m xs (add_urls m urls st) of
          (st', log) \<Rightarrow>
            if log = [] \<and> (xs = [] \<or> int (length (fst st')) < m)
            then (st', [SearchPageFailed k e]) else (st', log))"
        by (rule Cons.IH [OF Cons.prems])
      also have "\<dots> = (case page_loop E m (x # xs) st of
          (st', log) \<Rightarrow>
            if log = [] \<and> (x # xs = [] \<or> int (length (fst st')) < m)
            then (st', [SearchPageFailed k e]) else (st', log))"
      proof (cases "xs = []")
        case True
        with Inr False show ?thesis by simp
      next
        case nonempty: False
        with Inr False show ?thesis by simp
      qed
      finally show ?thesis .
    qed
  qed
qed

lemma add_urls_bound:
  "int (length (fst st)) < m \<or> fst st = [] \<Longrightarrow>
   int (length (fst (add_urls m us st))) \<le> m \<or> length (fst (add_urls m us st)) \<le> 1"
proof (induction us arbitrary: st)
  case Nil
  then show ?case by auto
next
  case (Cons u us)
  obtain c s where st: "st = (c, s)" by (cases st)
  show ?case
  proof (cases "u \<in> s")
    case True
    with Cons st show ?thesis by simp
  next
    case False
    show ?thesis
    proof (cases "m \<le> int (length (c @ [u]))")
      case True
      with False st Cons.prems show ?thesis by auto
    next
      case False
      then have "int (length (fst (c @ [u], insert u s))) < m \<or> fst (c @ [u], insert u s) = []"
        by simp
      from Cons.IH [OF this] False \<open>u \<notin> s\<close> st show ?thesis by simp
    qed
  qed
qed

lemma page_loop_bound:
  "int (length (fst st)) < m \<or> fst st = [] \<Longrightarrow>
   int (length (fst (fst (page_loop E m pages st)))) \<le> m
   \<or> length (fst (fst (page_loop E m pages st))) \<le> 1"
proof (induction pages arbitrary: st)
  case Nil
  then show ?case by auto
next
  case (Cons page pages)
  show ?case
  proof (cases "get_link E page")
    case (Inl e)
    with Cons.prems show ?thesis by auto
  next
    case (Inr urls)
    show ?thesis
    proof (cases "m \<le> int (length (fst (add_urls m urls st)))")
      case True
      with Inr add_urls_bound [OF Cons.prems, of urls] show ?thesis by simp
    next
      case False
      then have "int (length (fst (add_urls m urls st))) < m \<or> fst (add_urls m urls st) = []"
        by simp
      from Cons.IH [OF this] Inr False show ?thesis by simp
    qed
  qed
qed

lemma collect_urls_bound:
  "int (length (fst (collect_urls E m p))) \<le> m \<or> length (fst (collect_urls E m p)) \<le> 1"
  using page_loop_bound [of "([], {})" m E "[1..p]"]
  unfolding collect_urls_def by (simp add: split_beta)

lemma product_loop_results:
  "length (fst (product_loop E urls)) = length (filter (\<lambda>u. \<not> isl (prod_info E u)) urls)"
  by (induction urls) (auto simp: split_beta split: sum.splits)

lemma product_loop_failing_url:
  "prod_info E u = Inl e \<Longrightarrow>
   product_loop E (xs @ u # ys) =
     (fst (product_loop E xs) @ fst (product_loop E ys),
      snd (product_loop E xs) @ [Fetching u, ProductFailed e] @ snd (product_loop E ys))"
  by (induction xs) (auto simp: split_beta split: sum.splits)

lemma length_filter_compl:
  "length (filter (\<lambda>u. \<not> P u) xs) = length xs - length (filter P xs)"
  using sum_length_filter_compl [of P xs] by simp

section \<open>Claim C2: when the regex fallback runs\<close>

text \<open>
  C2. On every search page the anchor loop returns a list of URLs. When that list is empty,
  the result of \<^verbatim>\<open>get_link\<close> is the deduplicated list of the URLs built from the regex
  matches, whatever the regex search returns. When the list is not empty, the result is the
  deduplicated anchor list for every possible answer of the regex search, so the regex
  search has no part in it, and every URL of the result is one of the anchor URLs.
\<close>

theorem fallback_iff_no_anchor_url:
  "\<exists>anchors. anchor_urls E (find_all_a_href E html) = Inr anchors
     \<and> (anchors = [] \<longrightarrow>
          get_link_html E html = Inr (dedupe_loop {} [] (fallback_urls (re_findall_ip E html)))
          \<and> (\<forall>re. get_link_html (E\<lparr>re_findall_ip := re\<rparr>) html
                  = Inr (dedupe_loop {} [] (fallback_urls (re html)))))
     \<and> (anchors \<noteq> [] \<longrightarrow>
          get_link_html E html = Inr (dedupe_loop {} [] anchors)
          \<and> (\<forall>re. get_link_html (E\<lparr>re_findall_ip := re\<rparr>) html
                  = Inr (dedupe_loop {} [] anchors))
          \<and> set (dedupe_loop {} [] anchors) = set anchors)"
proof -
  obtain anchors where a: "anchor_urls E (find_all_a_href E html) = Inr anchors"
    using anchor_urls_total by blast
  have r: "anchor_urls (E\<lparr>re_findall_ip := re\<rparr>) (find_all_a_href E html) = Inr anchors" for re
    using a by (simp add: anchor_urls_regex)
  have e: "anchors = [] \<longrightarrow>
      get_link_html E html = Inr (dedupe_loop {} [] (fallback_urls (re_findall_ip E html)))
      \<and> (\<forall>re. get_link_html (E\<lparr>re_findall_ip := re\<rparr>) html
              = Inr (dedupe_loop {} [] (fallback_urls (re html))))"
    unfolding get_link_html_def product_urls_def by (simp add: a r)
  have n: "anchors \<noteq> [] \<longrightarrow>
      get_link_html E html = Inr (dedupe_loop {} [] anchors)
      \<and> (\<forall>re. get_link_html (E\<lparr>re_findall_ip := re\<rparr>) html = Inr (dedupe_loop {} [] anchors))
      \<and> set (dedupe_loop {} [] anchors) = set anchors"
    unfolding get_link_html_def product_urls_def by (simp add: a r dedupe_loop_set)
  from a e n show ?thesis by blast
qed

theorem fallback_iff_no_anchor_url_witness:
  "get_link_html demo_env ''search_js''
     = Inr [''https://www.walmart.com/ip/D/4'', ''https://www.walmart.com/ip/E/5'']
   \<and> get_link_html (demo_env\<lparr>re_findall_ip := (\<lambda>h. [''/ip/Q/7''])\<rparr>) ''search_js''
     = Inr [''https://www.walmart.com/ip/Q/7'']
   \<and> get_link_html demo_env ''search1''
     = Inr [''https://www.walmart.com/ip/A/1'', ''https://www.walmart.com/ip/B/2'']
   \<and> get_link_html (demo_env\<lparr>re_findall_ip := (\<lambda>h. [''/ip/Q/7''])\<rparr>) ''search1''
     = Inr [''https://www.walmart.com/ip/A/1'', ''https://www.walmart.com/ip/B/2'']"
proof -
  have a: "anchor_urls demo_env (find_all_a_href demo_env ''search_js'') = Inr []"
    by code_simp
  have b: "dedupe_loop {} [] (fallback_urls (re_findall_ip demo_env ''search_js''))
      = [''https://www.walmart.com/ip/D/4'', ''https://www.walmart.com/ip/E/5'']"
    by code_simp
  have c: "dedupe_loop {} [] (fallback_urls [''/ip/Q/7'']) = [''https://www.walmart.com/ip/Q/7'']"
    by code_simp
  have d: "anchor_urls demo_env (find_all_a_href demo_env ''search1'')
      = Inr [''https://www.walmart.com/ip/A/1'', ''https://www.walmart.com/ip/B/2'',
             ''https://www.walmart.com/ip/A/1'']"
    by code_simp
  have f: "dedupe_loop {} [] [''https://www.walmart.com/ip/A/1'', ''https://www.walmart.com/ip/B/2'',
             ''https://www.walmart.com/ip/A/1'']
      = [''https://www.walmart.com/ip/A/1'', ''https://www.walmart.com/ip/B/2'']"
    by code_simp
  from fallback_iff_no_anchor_url [of demo_env "''search_js''"] a b c
  have 1: "get_link_html demo_env ''search_js''
       = Inr [''https://www.walmart.com/ip/D/4'', ''https://www.walmart.com/ip/E/5'']
     \<and> get_link_html (demo_env\<lparr>re_findall_ip := (\<lambda>h. [''/ip/Q/7''])\<rparr>) ''search_js''
       = Inr [''https://www.walmart.com/ip/Q/7'']"
    by auto
  from fallback_iff_no_anchor_url [of demo_env "''search1''"] d f
  have 2: "get_link_html demo_env ''search1''
       = Inr [''https://www.walmart.com/ip/A/1'', ''https://www.walmart.com/ip/B/2'']
     \<and> get_link_html (demo_env\<lparr>re_findall_ip := (\<lambda>h. [''/ip/Q/7''])\<rparr>) ''search1''
       = Inr [''https://www.walmart.com/ip/A/1'', ''https://www.walmart.com/ip/B/2'']"
    by auto
  from 1 2 show ?thesis by simp
qed

section \<open>Claim C4: how failures propagate in the pipeline\<close>

text \<open>
  C4. When the request for search page \<open>k\<close> fails or the page is a bot challenge,
  \<^verbatim>\<open>get_link\<close> raises, the paging loop stops there: the collected URLs, and with them the
  records of the run, are those of a run over the pages before \<open>k\<close>, and the failure is
  printed when the loop reaches page \<open>k\<close>. A product URL on which \<^verbatim>\<open>prod_info\<close> raises
  (request, bot challenge or extraction) adds no record, its failure is printed, and the
  URLs after it are processed as before. When \<^verbatim>\<open>prod_info\<close> raises on exactly one of the N
  collected URLs, the run ends with N - 1 records.
\<close>

theorem pipeline_error_propagation:
  "(1 \<le> k \<and> k \<le> max_pages
      \<and> (case fetch_search E k of Inl e \<Rightarrow> True | Inr html \<Rightarrow> is_bot_page html) \<longrightarrow>
      (\<exists>e. get_link E k = Inl e
         \<and> snd (collect_urls E m max_pages) =
             (if snd (collect_urls E m (k - 1)) = []
                 \<and> (k = 1 \<or> int (length (fst (collect_urls E m (k - 1)))) < m)
              then [SearchPageFailed k e] else snd (collect_urls E m (k - 1))))
      \<and> fst (collect_urls E m max_pages) = fst (collect_urls E m (k - 1))
      \<and> fst (main E m max_pages) = fst (main E m (k - 1)))
   \<and> (prod_info E u = Inl e' \<longrightarrow>
        product_loop E (xs @ u # ys) =
          (fst (product_loop E xs) @ fst (product_loop E ys),
           snd (product_loop E xs) @ [Fetching u, ProductFailed e'] @ snd (product_loop E ys)))
   \<and> (length (filter (\<lambda>u. isl (prod_info E u)) (fst (collect_urls E m max_pages))) = 1 \<longrightarrow>
        (\<exists>results. fst (main E m max_pages) = Some results
           \<and> int (length results) = int (length (fst (collect_urls E m max_pages))) - 1))"
proof (intro conjI impI)
  assume h: "1 \<le> k \<and> k \<le> max_pages
      \<and> (case fetch_search E k of Inl e \<Rightarrow> True | Inr html \<Rightarrow> is_bot_page html)"
  then obtain e where e: "get_link E k = Inl e"
    using get_link_failure_iff [of E k] by blast
  from h have pages: "[1..max_pages] = [1..k - 1] @ k # [k + 1..max_pages]"
    by (simp add: upto_split3)
  from h have emp: "[1..k - 1] = [] \<longleftrightarrow> k = 1" by auto
  obtain st log where p: "page_loop E m [1..k - 1] ([], {}) = (st, log)"
    by (cases "page_loop E m [1..k - 1] ([], {})")
  have full: "page_loop E m [1..max_pages] ([], {}) =
      (if log = [] \<and> (k = 1 \<or> int (length (fst st)) < m)
       then (st, [SearchPageFailed k e]) else (st, log))"
    unfolding pages page_loop_failing_page [OF e] p emp by simp
  show "\<exists>e. get_link E k = Inl e
         \<and> snd (collect_urls E m max_pages) =
             (if snd (collect_urls E m (k - 1)) = []
                 \<and> (k = 1 \<or> int (length (fst (collect_urls E m (k - 1)))) < m)
              then [SearchPageFailed k e] else snd (collect_urls E m (k - 1)))"
    using e unfolding collect_urls_def full p by auto
  show c: "fst (collect_urls E m max_pages) = fst (collect_urls E m (k - 1))"
    unfolding collect_urls_def full p by simp
  show "fst (main E m max_pages) = fst (main E m (k - 1))"
    unfolding main_def using c by (simp add: split_beta)
next
  assume "prod_info E u = Inl e'"
  then show "product_loop E (xs @ u # ys) =
      (fst (product_loop E xs) @ fst (product_loop E ys),
       snd (product_loop E xs) @ [Fetching u, ProductFailed e'] @ snd (product_loop E ys))"
    by (rule product_loop_failing_url)
next
  let ?urls = "fst (collect_urls E m max_pages)"
  assume one: "length (filter (\<lambda>u. isl (prod_info E u)) ?urls) = 1"
  then have ne: "?urls \<noteq> []" by auto
  then have pos: "1 \<le> length ?urls" by (cases ?urls) simp_all
  have res: "fst (main E m max_pages) = Some (fst (product_loop E (py_slice_to m ?urls)))"
    unfolding main_def using ne by (simp add: split_beta)
  have "int (length (fst (product_loop E (py_slice_to m ?urls)))) = int (length ?urls) - 1"
  proof (cases "int (length ?urls) \<le> m")
    case True
    then have "py_slice_to m ?urls = ?urls" unfolding py_slice_to_def by simp
    then show ?thesis
      using one pos by (simp add: product_loop_results length_filter_compl of_nat_diff)
  next
    case False
    with collect_urls_bound [of E m max_pages] have "length ?urls \<le> 1" by simp
    with pos have len: "length ?urls = 1" by simp
    with False have l: "length ?urls = 1" "m \<le> 0" by simp_all
    then have "py_slice_to m ?urls = []" unfolding py_slice_to_def by auto
    with l show ?thesis by simp
  qed
  with res show "\<exists>results. fst (main E m max_pages) = Some results
      \<and> int (length results) = int (length ?urls) - 1"
    by blast
qed

theorem pipeline_error_propagation_witness:
  "get_link demo_env 2 = Inl HTTPError
   \<and> collect_urls demo_env 12 6
       = ([''https://www.walmart.com/ip/A/1'', ''https://www.walmart.com/ip/B/2''],
          [SearchPageFailed 2 HTTPError])
   \<and> fst (main demo_env 12 6) = fst (main demo_env 12 1)
   \<and> fst (product_loop demo_env
        [''https://www.walmart.com/ip/A/1'', ''https://www.walmart.com/ip/B/2''])
       = fst (product_loop demo_env [''https://www.walmart.com/ip/A/1''])
   \<and> (\<exists>results. fst (main demo_env 12 6) = Some results \<and> int (length results) = 1)"
proof -
  have g: "get_link demo_env 2 = Inl HTTPError"
    by code_simp
  have h1: "(1::int) \<le> 2 \<and> (2::int) \<le> 6
      \<and> (case fetch_search demo_env 2 of Inl e \<Rightarrow> True | Inr html \<Rightarrow> is_bot_page html)"
    by code_simp
  have c1: "collect_urls demo_env 12 (2 - 1)
      = ([''https://www.walmart.com/ip/A/1'', ''https://www.walmart.com/ip/B/2''], [])"
    by code_simp
  have h2: "prod_info demo_env ''https://www.walmart.com/ip/B/2''
      = Inl (RuntimeError (no_data_message @ page_sample '' ''))"
    by code_simp
  have h3: "length (filter (\<lambda>u. isl (prod_info demo_env u))
      [''https://www.walmart.com/ip/A/1'', ''https://www.walmart.com/ip/B/2'']) = 1"
    by code_simp
  have e: "product_loop demo_env [] = ([], [])"
    by simp
  note t = pipeline_error_propagation
    [where E = demo_env and k = 2 and max_pages = 6 and m = 12
       and u = "''https://www.walmart.com/ip/B/2''"
       and e' = "RuntimeError (no_data_message @ page_sample '' '')"
       and xs = "[''https://www.walmart.com/ip/A/1'']" and ys = "[]"]
  from t h1 g c1 have p1: "collect_urls demo_env 12 6
       = ([''https://www.walmart.com/ip/A/1'', ''https://www.walmart.com/ip/B/2''],
          [SearchPageFailed 2 HTTPError])
     \<and> fst (main demo_env 12 6) = fst (main demo_env 12 (2 - 1))"
    by (auto simp: prod_eq_iff)
  from t h2 e have p2: "fst (product_loop demo_env
        [''https://www.walmart.com/ip/A/1'', ''https://www.walmart.com/ip/B/2''])
       = fst (product_loop demo_env [''https://www.walmart.com/ip/A/1''])"
    by simp
  from p1 h3 have h3': "length (filter (\<lambda>u. isl (prod_info demo_env u))
      (fst (collect_urls demo_env 12 6))) = 1"
    by simp
  from t h3' p1 have p3: "\<exists>results. fst (main demo_env 12 6) = Some results
      \<and> int (length results) = 1"
    by simp
  from g p1 p2 p3 show ?thesis by simp
qed

section \<open>Facts about URL splitting\<close>

lemma takeWhile_notin: "c \<notin> set s \<Longrightarrow> takeWhile (\<lambda>x. x \<noteq> c) s = s"
  by (induction s) auto

lemma split_pair_fst:
  "fst (case split_first c s of Some (a, b) \<Rightarrow> (a, b) | None \<Rightarrow> (s, [])) = takeWhile (\<lambda>x. x \<noteq> c) s"
  by (simp add: split_first_def takeWhile_notin)

lemma takeWhile_twice:
  "takeWhile (\<lambda>x. x \<noteq> a) (takeWhile (\<lambda>x. x \<noteq> b) s) = takeWhile (\<lambda>x. x \<noteq> a \<and> x \<noteq> b) s"
  by (induction s) auto

lemma urlunsplit_netloc:
  "n \<noteq> [] \<Longrightarrow> s \<noteq> [] \<Longrightarrow>
   urlunsplit s n p [] [] = s @ ''://'' @ n @ (if p \<noteq> [] \<and> take 1 p \<noteq> ''/'' then ''/'' @ p else p)"
  by (simp add: urlunsplit_def)

lemma normalize_product_url_eq:
  assumes "split_scheme (remove_unsafe (lstrip_c0 raw)) = (sch, u2)"
    and "(if take 2 u2 = ''//'' then splitnetloc u2 else ([], u2)) = (n, u3)"
  shows "normalize_product_url E raw =
    (if (take 2 u2 = ''//'' \<and> bracket_error E n) \<or> checknetloc_error E n then Inl ValueError
     else Inr ((if sch \<noteq> [] then sch else ''https'') @ ''://''
               @ (if n \<noteq> [] then n else ''www.walmart.com'')
               @ (let p = takeWhile (\<lambda>x. x \<noteq> CHR ''?'') (takeWhile (\<lambda>x. x \<noteq> CHR ''#'') u3)
                  in if p \<noteq> [] \<and> take 1 p \<noteq> ''/'' then ''/'' @ p else p)))"
proof -
  have p: "fst (case split_first CHR ''?'' (fst (case split_first CHR ''#'' u3 of Some (a, b) \<Rightarrow> (a, b) | None \<Rightarrow> (u3, [])))
     of Some (a, b) \<Rightarrow> (a, b) | None \<Rightarrow> (fst (case split_first CHR ''#'' u3 of Some (a, b) \<Rightarrow> (a, b) | None \<Rightarrow> (u3, [])), []))
     = takeWhile (\<lambda>x. x \<noteq> CHR ''?'') (takeWhile (\<lambda>x. x \<noteq> CHR ''#'') u3)"
    by (simp only: split_pair_fst)
  show ?thesis
    unfolding normalize_product_url_def urlsplit_def Let_def assms split_conv
    using p
    by (auto simp: urlunsplit_netloc split: prod.splits option.splits)
qed

lemma special_chars:
  "\<not> scheme_char CHR '':''" "\<not> scheme_char CHR ''/''" "\<not> scheme_char CHR ''?''"
  "\<not> scheme_char CHR ''#''" "\<not> unsafe_byte CHR '':''" "\<not> unsafe_byte CHR ''/''"
  "\<not> unsafe_byte CHR ''?''" "\<not> unsafe_byte CHR ''#''"
  "\<not> (of_char CHR ''?'' :: nat) \<le> 32" "\<not> (of_char CHR ''#'' :: nat) \<le> 32"
  by code_simp+

lemma scheme_char_safe: "scheme_char c \<Longrightarrow> \<not> unsafe_byte c"
proof -
  assume "scheme_char c"
  then have "43 \<le> (of_char c :: nat)"
    unfolding scheme_char_def Let_def by auto
  then show "\<not> unsafe_byte c"
    unfolding unsafe_byte_def Let_def by auto
qed

lemma ascii_alpha_facts:
  "ascii_alpha c \<Longrightarrow> is_ascii c \<and> scheme_char c \<and> \<not> (of_char c :: nat) \<le> 32"
proof -
  assume a: "ascii_alpha c"
  then have "65 \<le> (of_char c :: nat) \<and> (of_char c :: nat) \<le> 122"
    unfolding ascii_alpha_def Let_def by auto
  then have "is_ascii c" "\<not> (of_char c :: nat) \<le> 32"
    unfolding is_ascii_def by auto
  moreover from a have "scheme_char c"
    unfolding ascii_alpha_def scheme_char_def Let_def by blast
  ultimately show ?thesis
    by blast
qed

lemma py_lower_char_cases:
  "py_lower_char c = c \<or>
   (\<exists>n. (of_char c :: nat) = n \<and> ((65 \<le> n \<and> n \<le> 90) \<or> (192 \<le> n \<and> n \<le> 222))
        \<and> py_lower_char c = char_of (n + 32) \<and> (of_char (py_lower_char c) :: nat) = n + 32)"
proof (cases "py_lower_char c = c")
  case True
  then show ?thesis by simp
next
  case False
  define n where "n = (of_char c :: nat)"
  from False have up: "(65 \<le> n \<and> n \<le> 90) \<or> (192 \<le> n \<and> n \<le> 222 \<and> n \<noteq> 215)"
    unfolding py_lower_char_def Let_def n_def by (auto split: if_splits)
  then have eq: "py_lower_char c = char_of (n + 32)"
    unfolding py_lower_char_def Let_def n_def by simp
  from up have "n + 32 < 256"
    by arith
  then have "(of_char (char_of (n + 32) :: char) :: nat) = n + 32"
    by (simp add: of_char_of)
  with eq up show ?thesis
    unfolding n_def by auto
qed

lemma scheme_char_lower: "scheme_char c \<Longrightarrow> scheme_char (py_lower_char c)"
proof -
  assume a: "scheme_char c"
  from py_lower_char_cases [of c] show ?thesis
  proof
    assume "py_lower_char c = c"
    with a show ?thesis by simp
  next
    assume "\<exists>n. (of_char c :: nat) = n \<and> ((65 \<le> n \<and> n \<le> 90) \<or> (192 \<le> n \<and> n \<le> 222))
        \<and> py_lower_char c = char_of (n + 32) \<and> (of_char (py_lower_char c) :: nat) = n + 32"
    then obtain n where n: "(of_char c :: nat) = n" "(65 \<le> n \<and> n \<le> 90) \<or> (192 \<le> n \<and> n \<le> 222)"
        "(of_char (py_lower_char c) :: nat) = n + 32"
      by blast
    from a n(1) have "n \<le> 122"
      unfolding scheme_char_def Let_def by arith
    with n(2) have "97 \<le> n + 32 \<and> n + 32 \<le> 122"
      by arith
    then show ?thesis
      unfolding scheme_char_def Let_def n(3) by simp
  qed
qed

lemma ascii_alpha_lower: "ascii_alpha c \<Longrightarrow> ascii_alpha (py_lower_char c)"
proof -
  assume a: "ascii_alpha c"
  from py_lower_char_cases [of c] show ?thesis
  proof
    assume "py_lower_char c = c"
    with a show ?thesis by simp
  next
    assume "\<exists>n. (of_char c :: nat) = n \<and> ((65 \<le> n \<and> n \<le> 90) \<or> (192 \<le> n \<and> n \<le> 222))
        \<and> py_lower_char c = char_of (n + 32) \<and> (of_char (py_lower_char c) :: nat) = n + 32"
    then obtain n where n: "(of_char c :: nat) = n" "(65 \<le> n \<and> n \<le> 90) \<or> (192 \<le> n \<and> n \<le> 222)"
        "(of_char (py_lower_char c) :: nat) = n + 32"
      by blast
    from a n(1) have "n \<le> 122"
      unfolding ascii_alpha_def Let_def by arith
    with n(2) have "97 \<le> n + 32 \<and> n + 32 \<le> 122"
      by arith
    then show ?thesis
      unfolding ascii_alpha_def Let_def n(3) by simp
  qed
qed

lemma py_lower_idem: "py_lower (py_lower s) = py_lower s"
  by (simp add: py_lower_def py_lower_char_idem)

lemma remove_unsafe_clean: "list_all (\<lambda>c. \<not> unsafe_byte c) (remove_unsafe u)"
  by (simp add: remove_unsafe_def list_all_iff)

lemma split_first_append:
  "c \<notin> set pre \<Longrightarrow> split_first c (pre @ c # post) = Some (pre, post)"
proof -
  assume n: "c \<notin> set pre"
  then have t: "takeWhile (\<lambda>x. x \<noteq> c) (pre @ c # post) = pre"
    by (induction pre) auto
  from n have d: "dropWhile (\<lambda>x. x \<noteq> c) (pre @ c # post) = c # post"
    by (induction pre) auto
  show ?thesis
    unfolding split_first_def t d by simp
qed

lemma split_scheme_colon:
  "CHR '':'' \<notin> set pre \<Longrightarrow>
   split_scheme (pre @ CHR '':'' # post) =
     (if pre \<noteq> [] \<and> is_ascii (hd pre) \<and> ascii_alpha (hd pre) \<and> list_all scheme_char pre
      then (py_lower pre, post) else ([], pre @ CHR '':'' # post))"
  unfolding split_scheme_def by (simp add: split_first_append)

lemma split_scheme_nocolon: "CHR '':'' \<notin> set u \<Longrightarrow> split_scheme u = ([], u)"
  unfolding split_scheme_def split_first_def by simp

lemma split_scheme_facts:
  assumes "split_scheme u = (sch, r)"
  shows "set r \<subseteq> set u"
    and "sch = [] \<or> (ascii_alpha (hd sch) \<and> list_all scheme_char sch \<and> py_lower sch = sch)"
proof -
  have both: "set r \<subseteq> set u
      \<and> (sch = [] \<or> (ascii_alpha (hd sch) \<and> list_all scheme_char sch \<and> py_lower sch = sch))"
  proof (cases "CHR '':'' \<in> set u")
    case False
    from split_scheme_nocolon [OF False] assms have "sch = []" "r = u"
      by simp_all
    then show ?thesis by simp
  next
    case True
    from split_list_first [OF True]
    obtain pre post where u: "u = pre @ CHR '':'' # post" and np: "CHR '':'' \<notin> set pre"
      by blast
    define ok where "ok \<longleftrightarrow>
      pre \<noteq> [] \<and> is_ascii (hd pre) \<and> ascii_alpha (hd pre) \<and> list_all scheme_char pre"
    have ss: "split_scheme u = (if ok then (py_lower pre, post) else ([], u))"
      unfolding u ok_def by (rule split_scheme_colon [OF np])
    show ?thesis
    proof (cases ok)
      case False
      with ss assms have "sch = []" "r = u"
        by simp_all
      then show ?thesis by simp
    next
      case True
      with ss assms have sch: "sch = py_lower pre" and r: "r = post"
        by simp_all
      from True have pre: "pre \<noteq> []" "ascii_alpha (hd pre)" "list_all scheme_char pre"
        unfolding ok_def by simp_all
      have 1: "set r \<subseteq> set u"
        unfolding r u by auto
      have "hd sch = py_lower_char (hd pre)"
        using pre(1) unfolding sch py_lower_def by (simp add: hd_map)
      then have 2: "ascii_alpha (hd sch)"
        using pre(2) by (simp add: ascii_alpha_lower)
      have 3: "list_all scheme_char sch"
        using pre(3) unfolding sch py_lower_def list_all_iff by (simp add: scheme_char_lower)
      have 4: "py_lower sch = sch"
        unfolding sch by (rule py_lower_idem)
      from 1 2 3 4 show ?thesis by simp
    qed
  qed
  from both show "set r \<subseteq> set u" by simp
  from both show "sch = [] \<or> (ascii_alpha (hd sch) \<and> list_all scheme_char sch \<and> py_lower sch = sch)"
    by simp
qed

lemma splitnetloc_facts:
  assumes "splitnetloc r = (n, r')"
  shows "list_all (\<lambda>c. \<not> netloc_delim c) n" and "set n \<subseteq> set r" and "set r' \<subseteq> set r"
proof -
  from assms have n: "n = takeWhile (\<lambda>c. \<not> netloc_delim c) (drop 2 r)"
    and r': "r' = dropWhile (\<lambda>c. \<not> netloc_delim c) (drop 2 r)"
    unfolding splitnetloc_def by simp_all
  show "list_all (\<lambda>c. \<not> netloc_delim c) n"
    unfolding n list_all_iff by (auto dest: set_takeWhileD)
  show "set n \<subseteq> set r"
    unfolding n by (auto dest: set_takeWhileD in_set_dropD)
  show "set r' \<subseteq> set r"
    unfolding r' by (auto dest: set_dropWhileD in_set_dropD)
qed

lemma default_parts:
  "ascii_alpha (hd ''https'')" "list_all scheme_char ''https''" "py_lower ''https'' = ''https''"
  "list_all (\<lambda>c. \<not> netloc_delim c \<and> \<not> unsafe_byte c) ''www.walmart.com''"
  "list_all is_ascii ''www.walmart.com''"
  "CHR ''['' \<notin> set ''www.walmart.com''" "CHR '']'' \<notin> set ''www.walmart.com''"
  by code_simp+

lemma default_netloc_ok:
  "\<not> bracket_error E ''www.walmart.com''" "\<not> checknetloc_error E ''www.walmart.com''"
  using default_parts(5,6,7) unfolding bracket_error_def checknetloc_error_def Let_def by blast+

lemma normalize_shape:
  assumes "normalize_product_url E raw = Inr y"
  shows "\<exists>s n p. y = s @ ''://'' @ n @ p \<and> url_shape E s n p"
proof -
  define u1 where "u1 = remove_unsafe (lstrip_c0 raw)"
  obtain sch u2 where ss: "split_scheme u1 = (sch, u2)"
    by (cases "split_scheme u1")
  obtain n u3 where sn: "(if take 2 u2 = ''//'' then splitnetloc u2 else ([], u2)) = (n, u3)"
    by (cases "if take 2 u2 = ''//'' then splitnetloc u2 else ([], u2)")
  define p0 where "p0 = takeWhile (\<lambda>x. x \<noteq> CHR ''?'') (takeWhile (\<lambda>x. x \<noteq> CHR ''#'') u3)"
  define s where "s = (if sch \<noteq> [] then sch else ''https'')"
  define n' where "n' = (if n \<noteq> [] then n else ''www.walmart.com'')"
  define p where "p = (if p0 \<noteq> [] \<and> take 1 p0 \<noteq> ''/'' then ''/'' @ p0 else p0)"
  have eq: "normalize_product_url E raw =
      (if (take 2 u2 = ''//'' \<and> bracket_error E n) \<or> checknetloc_error E n then Inl ValueError
       else Inr (s @ ''://'' @ n' @ p))"
    using normalize_product_url_eq [OF ss [unfolded u1_def] sn, of E]
    unfolding s_def n'_def p_def p0_def Let_def .
  with assms have noerr: "\<not> (take 2 u2 = ''//'' \<and> bracket_error E n)" "\<not> checknetloc_error E n"
    and y: "y = s @ ''://'' @ n' @ p"
    by (auto split: if_splits)
  have clean1: "list_all (\<lambda>c. \<not> unsafe_byte c) u1"
    unfolding u1_def by (rule remove_unsafe_clean)
  have sub2: "set u2 \<subseteq> set u1"
    using split_scheme_facts(1) [OF ss] .
  have sub3: "set u3 \<subseteq> set u2" and subn: "set n \<subseteq> set u2"
    and delim: "list_all (\<lambda>c. \<not> netloc_delim c) n"
    and nb: "n \<noteq> [] \<longrightarrow> \<not> bracket_error E n"
    using sn splitnetloc_facts [of u2 n u3] noerr(1) by (auto split: if_splits)
  have sch: "s \<noteq> [] \<and> ascii_alpha (hd s) \<and> list_all scheme_char s \<and> py_lower s = s"
    using split_scheme_facts(2) [OF ss] default_parts(1,2,3) unfolding s_def by auto
  have "list_all (\<lambda>c. \<not> unsafe_byte c) n"
    using subn sub2 clean1 unfolding list_all_iff by blast
  with delim have "n \<noteq> [] \<longrightarrow> list_all (\<lambda>c. \<not> netloc_delim c \<and> \<not> unsafe_byte c) n"
    unfolding list_all_iff by blast
  then have net: "n' \<noteq> [] \<and> list_all (\<lambda>c. \<not> netloc_delim c \<and> \<not> unsafe_byte c) n'
      \<and> \<not> bracket_error E n' \<and> \<not> checknetloc_error E n'"
    using nb noerr(2) default_parts(4) default_netloc_ok [of E] unfolding n'_def by auto
  have p0set: "set p0 \<subseteq> set u3"
    unfolding p0_def by (auto dest: set_takeWhileD)
  have p0q: "\<forall>c \<in> set p0. c \<noteq> CHR ''?'' \<and> c \<noteq> CHR ''#''"
    unfolding p0_def takeWhile_twice by (auto dest: set_takeWhileD)
  have "\<forall>c \<in> set p0. \<not> unsafe_byte c"
    using p0set sub3 sub2 clean1 unfolding list_all_iff by blast
  with p0q have "list_all (\<lambda>c. c \<noteq> CHR ''?'' \<and> c \<noteq> CHR ''#'' \<and> \<not> unsafe_byte c) p"
    unfolding p_def list_all_iff using special_chars(6) by auto
  moreover have "p = [] \<or> hd p = CHR ''/''"
    unfolding p_def by (cases p0) auto
  ultimately have "url_shape E s n' p"
    unfolding url_shape_def using sch net by blast
  with y show ?thesis
    by blast
qed

lemma scheme_no_special:
  assumes "list_all scheme_char s"
  shows "CHR '':'' \<notin> set s" and "\<forall>c\<in>set s. \<not> unsafe_byte c"
    and "\<forall>c\<in>set s. c \<noteq> CHR ''?'' \<and> c \<noteq> CHR ''#''"
proof -
  have all: "\<forall>c\<in>set s. scheme_char c"
    using assms by (simp add: list_all_iff)
  show "CHR '':'' \<notin> set s"
    using all special_chars(1) by blast
  show "\<forall>c\<in>set s. \<not> unsafe_byte c"
    using all scheme_char_safe by blast
  show "\<forall>c\<in>set s. c \<noteq> CHR ''?'' \<and> c \<noteq> CHR ''#''"
    using all special_chars(3,4) by blast
qed

lemma split_scheme_shape:
  assumes "s \<noteq> []" "ascii_alpha (hd s)" "list_all scheme_char s" "py_lower s = s"
  shows "split_scheme (s @ ''://'' @ r) = (s, ''//'' @ r)"
proof -
  have nc: "CHR '':'' \<notin> set s"
    using scheme_no_special(1) [OF assms(3)] .
  have asc: "is_ascii (hd s)"
    using ascii_alpha_facts [OF assms(2)] by simp
  have "split_scheme (s @ CHR '':'' # (''//'' @ r)) = (py_lower s, ''//'' @ r)"
    unfolding split_scheme_colon [OF nc] using assms(1,2,3) asc by simp
  then show ?thesis
    unfolding assms(4) by simp
qed

lemma takeWhile_tail: "r = [] \<or> \<not> P (hd r) \<Longrightarrow> takeWhile P (t @ r) = takeWhile P t"
proof (induction t)
  case Nil
  then show ?case by (cases r) auto
next
  case (Cons a t)
  then show ?case by simp
qed

lemma dropWhile_tail: "r = [] \<or> \<not> P (hd r) \<Longrightarrow> dropWhile P (t @ r) = dropWhile P t @ r"
proof (induction t)
  case Nil
  then show ?case by (cases r) auto
next
  case (Cons a t)
  then show ?case by simp
qed

lemma netloc_split_shape:
  assumes "list_all (\<lambda>c. \<not> netloc_delim c \<and> \<not> unsafe_byte c) n" and "p = [] \<or> hd p = CHR ''/''"
  shows "splitnetloc (''//'' @ n @ p) = (n, p)"
proof -
  have nd: "\<And>c. c \<in> set n \<Longrightarrow> \<not> netloc_delim c"
    using assms(1) by (simp add: list_all_iff)
  have pd: "p = [] \<or> \<not> (\<lambda>c. \<not> netloc_delim c) (hd p)"
    using assms(2) by (auto simp: netloc_delim_def)
  have "takeWhile (\<lambda>c. \<not> netloc_delim c) (n @ p) = takeWhile (\<lambda>c. \<not> netloc_delim c) n"
    using pd by (rule takeWhile_tail [of p "\<lambda>c. \<not> netloc_delim c" n])
  also have "\<dots> = n"
    using nd by (simp add: takeWhile_eq_all_conv)
  finally have tw: "takeWhile (\<lambda>c. \<not> netloc_delim c) (n @ p) = n" .
  have "dropWhile (\<lambda>c. \<not> netloc_delim c) (n @ p) = dropWhile (\<lambda>c. \<not> netloc_delim c) n @ p"
    using pd by (rule dropWhile_tail [of p "\<lambda>c. \<not> netloc_delim c" n])
  also have "dropWhile (\<lambda>c. \<not> netloc_delim c) n = []"
    using nd by (simp add: dropWhile_eq_Nil_conv)
  finally have dw: "dropWhile (\<lambda>c. \<not> netloc_delim c) (n @ p) = p"
    by simp
  show ?thesis
    unfolding splitnetloc_def using tw dw by simp
qed

lemma normalize_fixed:
  assumes "url_shape E s n p"
  shows "normalize_product_url E (s @ ''://'' @ n @ p) = Inr (s @ ''://'' @ n @ p)"
proof -
  from assms have s: "s \<noteq> []" "ascii_alpha (hd s)" "list_all scheme_char s" "py_lower s = s"
    and n: "n \<noteq> []" "list_all (\<lambda>c. \<not> netloc_delim c \<and> \<not> unsafe_byte c) n"
      "\<not> bracket_error E n" "\<not> checknetloc_error E n"
    and p: "p = [] \<or> hd p = CHR ''/''"
      "list_all (\<lambda>c. c \<noteq> CHR ''?'' \<and> c \<noteq> CHR ''#'' \<and> \<not> unsafe_byte c) p"
    unfolding url_shape_def by simp_all
  define y where "y = s @ ''://'' @ n @ p"
  obtain a s' where sa: "s = a # s'"
    using s(1) by (cases s) auto
  have a: "\<not> (of_char a :: nat) \<le> 32"
    using ascii_alpha_facts [of a] s(2) sa by simp
  have l: "lstrip_c0 y = y"
    unfolding y_def lstrip_c0_def sa using a by simp
  have "\<forall>c\<in>set y. \<not> unsafe_byte c"
    unfolding y_def using scheme_no_special(2) [OF s(3)] n(2) p(2) special_chars(5,6)
    by (auto simp: list_all_iff)
  then have ru: "remove_unsafe y = y"
    unfolding remove_unsafe_def by (simp add: filter_id_conv)
  have "split_scheme y = (s, ''//'' @ n @ p)"
    unfolding y_def by (rule split_scheme_shape [OF s])
  then have ss: "split_scheme (remove_unsafe (lstrip_c0 y)) = (s, ''//'' @ n @ p)"
    by (simp only: l ru)
  have sn: "(if take 2 (''//'' @ n @ p) = ''//'' then splitnetloc (''//'' @ n @ p)
             else ([], ''//'' @ n @ p)) = (n, p)"
    using netloc_split_shape [OF n(2) p(1)] by simp
  have path: "takeWhile (\<lambda>x. x \<noteq> CHR ''?'') (takeWhile (\<lambda>x. x \<noteq> CHR ''#'') p) = p"
    unfolding takeWhile_twice using p(2) by (simp add: list_all_iff takeWhile_eq_all_conv)
  have p1: "\<not> (p \<noteq> [] \<and> take 1 p \<noteq> ''/'')"
    using p(1) by (cases p) auto
  have "normalize_product_url E y = Inr (s @ ''://'' @ n @ p)"
    unfolding normalize_product_url_eq [OF ss sn, of E] Let_def path
    using s(1) n(1,3,4) p1 by simp
  then show ?thesis
    unfolding y_def .
qed

lemma url_shape_no_query:
  assumes "url_shape E s n p"
  shows "\<not> has_query_or_fragment (s @ ''://'' @ n @ p)"
proof -
  from assms have s: "list_all scheme_char s"
    and n: "list_all (\<lambda>c. \<not> netloc_delim c \<and> \<not> unsafe_byte c) n"
    and p: "list_all (\<lambda>c. c \<noteq> CHR ''?'' \<and> c \<noteq> CHR ''#'' \<and> \<not> unsafe_byte c) p"
    unfolding url_shape_def by simp_all
  have q: "CHR ''?'' \<notin> set x \<and> CHR ''#'' \<notin> set x"
    if "\<forall>c\<in>set x. c \<noteq> CHR ''?'' \<and> c \<noteq> CHR ''#''" for x
    using that by blast
  have 1: "CHR ''?'' \<notin> set s \<and> CHR ''#'' \<notin> set s"
    using scheme_no_special(3) [OF s] by (rule q)
  have "\<forall>c\<in>set n. c \<noteq> CHR ''?'' \<and> c \<noteq> CHR ''#''"
  proof
    fix c assume "c \<in> set n"
    with n have "\<not> netloc_delim c" by (simp add: list_all_iff)
    then show "c \<noteq> CHR ''?'' \<and> c \<noteq> CHR ''#''" by (simp add: netloc_delim_def)
  qed
  then have 2: "CHR ''?'' \<notin> set n \<and> CHR ''#'' \<notin> set n"
    by (rule q)
  have "\<forall>c\<in>set p. c \<noteq> CHR ''?'' \<and> c \<noteq> CHR ''#''"
    using p by (simp add: list_all_iff)
  then have 3: "CHR ''?'' \<notin> set p \<and> CHR ''#'' \<notin> set p"
    by (rule q)
  from 1 2 3 show ?thesis
    unfolding has_query_or_fragment_def by simp
qed

lemma url_shape_absolute:
  assumes "url_shape E s n p"
  shows "is_absolute_url (s @ ''://'' @ n @ p)"
proof -
  from assms have s: "s \<noteq> []" "ascii_alpha (hd s)" "list_all scheme_char s" "py_lower s = s"
    and n: "n \<noteq> []" "list_all (\<lambda>c. \<not> netloc_delim c \<and> \<not> unsafe_byte c) n"
    and p: "p = [] \<or> hd p = CHR ''/''"
    unfolding url_shape_def by simp_all
  have ss: "split_scheme (s @ ''://'' @ n @ p) = (s, ''//'' @ n @ p)"
    by (rule split_scheme_shape [OF s])
  have sn: "fst (splitnetloc (''//'' @ n @ p)) = n"
    by (simp only: netloc_split_shape [OF n(2) p] fst_conv)
  have tk: "take 2 (''//'' @ n @ p) = ''//''"
    by simp
  show ?thesis
    unfolding is_absolute_url_def ss split_conv sn tk using s(1) n(1) by simp
qed

lemma prefixed_absolute: "is_absolute_url (''https://www.walmart.com'' @ x)"
proof -
  have s: "''https'' \<noteq> []" "ascii_alpha (hd ''https'')" "list_all scheme_char ''https''"
      "py_lower ''https'' = ''https''"
    using default_parts(1,2,3) by simp_all
  have "split_scheme (''https'' @ ''://'' @ (''www.walmart.com'' @ x))
      = (''https'', ''//'' @ (''www.walmart.com'' @ x))"
    by (rule split_scheme_shape [OF s])
  then have ss: "split_scheme (''https://www.walmart.com'' @ x) = (''https'', ''//www.walmart.com'' @ x)"
    by simp
  have nd: "\<And>c. c \<in> set ''www.walmart.com'' \<Longrightarrow> \<not> netloc_delim c"
    using default_parts(4) unfolding list_all_iff by blast
  have "takeWhile (\<lambda>c. \<not> netloc_delim c) (''www.walmart.com'' @ x)
      = ''www.walmart.com'' @ takeWhile (\<lambda>c. \<not> netloc_delim c) x"
    by (rule takeWhile_append2) (rule nd)
  then have "fst (splitnetloc (''//www.walmart.com'' @ x)) \<noteq> []"
    unfolding splitnetloc_def by simp
  then show ?thesis
    unfolding is_absolute_url_def ss by simp
qed

lemma prefixed_no_query:
  "\<not> has_query_or_fragment x \<Longrightarrow> \<not> has_query_or_fragment (''https://www.walmart.com'' @ x)"
  unfolding has_query_or_fragment_def by simp

lemma stripped_no_query: "\<not> has_query_or_fragment (split_head CHR ''#'' (split_head CHR ''?'' x))"
  unfolding has_query_or_fragment_def split_head_def takeWhile_twice
  by (auto dest: set_takeWhileD)

lemma stripped_prefix:
  "split_head CHR ''#'' (split_head CHR ''?'' x)
     = takeWhile (\<lambda>c. c \<noteq> CHR ''?'' \<and> c \<noteq> CHR ''#'') x"
proof -
  have "(\<lambda>c. c \<noteq> CHR ''#'' \<and> c \<noteq> CHR ''?'') = (\<lambda>c. c \<noteq> CHR ''?'' \<and> c \<noteq> CHR ''#'')"
    by auto
  then show ?thesis
    unfolding split_head_def takeWhile_twice by simp
qed

lemma lstrip_c0_tail:
  assumes "r = [] \<or> hd r = CHR ''?'' \<or> hd r = CHR ''#''"
  shows "lstrip_c0 (t @ r) = lstrip_c0 t @ r"
proof -
  have "r = [] \<or> \<not> (\<lambda>c. (of_char c :: nat) \<le> 32) (hd r)"
  proof (cases "r = []")
    case True
    then show ?thesis by simp
  next
    case False
    with assms have "hd r = CHR ''?'' \<or> hd r = CHR ''#''" by simp
    then have "\<not> (of_char (hd r) :: nat) \<le> 32"
      using special_chars(9,10) by (elim disjE) simp_all
    then show ?thesis by simp
  qed
  then show ?thesis
    unfolding lstrip_c0_def by (rule dropWhile_tail [of r "\<lambda>c. (of_char c :: nat) \<le> 32" t])
qed

lemma remove_unsafe_tail:
  assumes "r = [] \<or> hd r = CHR ''?'' \<or> hd r = CHR ''#''"
  shows "remove_unsafe (t @ r) = remove_unsafe t @ remove_unsafe r"
    and "remove_unsafe r = [] \<or> hd (remove_unsafe r) = CHR ''?'' \<or> hd (remove_unsafe r) = CHR ''#''"
proof -
  show "remove_unsafe (t @ r) = remove_unsafe t @ remove_unsafe r"
    by (simp add: remove_unsafe_def)
  show "remove_unsafe r = [] \<or> hd (remove_unsafe r) = CHR ''?'' \<or> hd (remove_unsafe r) = CHR ''#''"
  proof (cases r)
    case Nil
    then show ?thesis by (simp add: remove_unsafe_def)
  next
    case (Cons a r0)
    with assms have a: "a = CHR ''?'' \<or> a = CHR ''#''" by simp
    then have "\<not> unsafe_byte a"
      using special_chars(7,8) by (elim disjE) simp_all
    then have "remove_unsafe r = a # remove_unsafe r0"
      unfolding Cons remove_unsafe_def by simp
    with a show ?thesis by simp
  qed
qed

lemma split_scheme_tail:
  assumes "r = [] \<or> hd r = CHR ''?'' \<or> hd r = CHR ''#''"
  shows "split_scheme (t @ r) = (fst (split_scheme t), snd (split_scheme t) @ r)"
proof (cases "CHR '':'' \<in> set t")
  case True
  from split_list_first [OF True]
  obtain pre post where t: "t = pre @ CHR '':'' # post" and np: "CHR '':'' \<notin> set pre"
    by blast
  define ok where "ok \<longleftrightarrow>
    pre \<noteq> [] \<and> is_ascii (hd pre) \<and> ascii_alpha (hd pre) \<and> list_all scheme_char pre"
  have 1: "split_scheme (pre @ CHR '':'' # (post @ r))
      = (if ok then (py_lower pre, post @ r) else ([], pre @ CHR '':'' # (post @ r)))"
    unfolding ok_def by (rule split_scheme_colon [OF np])
  have 2: "split_scheme (pre @ CHR '':'' # post)
      = (if ok then (py_lower pre, post) else ([], pre @ CHR '':'' # post))"
    unfolding ok_def by (rule split_scheme_colon [OF np])
  have "t @ r = pre @ CHR '':'' # (post @ r)"
    unfolding t by simp
  then have "split_scheme (t @ r)
      = (if ok then (py_lower pre, post @ r) else ([], pre @ CHR '':'' # (post @ r)))"
    using 1 by simp
  moreover have "split_scheme t = (if ok then (py_lower pre, post) else ([], pre @ CHR '':'' # post))"
    unfolding t by (rule 2)
  ultimately show ?thesis
    by (cases ok) simp_all
next
  case False
  then have st: "split_scheme t = ([], t)"
    by (rule split_scheme_nocolon)
  have "split_scheme (t @ r) = ([], t @ r)"
  proof (cases "CHR '':'' \<in> set r")
    case nr: False
    with False have "CHR '':'' \<notin> set (t @ r)" by simp
    then show ?thesis by (rule split_scheme_nocolon)
  next
    case True
    from split_list_first [OF True]
    obtain a b where r: "r = a @ CHR '':'' # b" and na: "CHR '':'' \<notin> set a"
      by blast
    from r have "r \<noteq> []" by simp
    with assms have h: "hd r = CHR ''?'' \<or> hd r = CHR ''#''" by simp
    have ane: "a \<noteq> []"
    proof
      assume "a = []"
      with r have "hd r = CHR '':''" by simp
      with h show False by simp
    qed
    then have "hd a = hd r" unfolding r by simp
    with h have "\<not> scheme_char (hd a)"
      using special_chars(3,4) by (elim disjE) simp_all
    moreover have "hd a \<in> set (t @ a)"
      using ane by simp
    ultimately have bad: "\<not> list_all scheme_char (t @ a)"
      unfolding list_all_iff by blast
    have np: "CHR '':'' \<notin> set (t @ a)"
      using False na by simp
    have "split_scheme ((t @ a) @ CHR '':'' # b) = ([], (t @ a) @ CHR '':'' # b)"
      unfolding split_scheme_colon [OF np] using bad by simp
    then show ?thesis
      unfolding r by simp
  qed
  with st show ?thesis by simp
qed

lemma take2_tail:
  assumes "r = [] \<or> hd r = CHR ''?'' \<or> hd r = CHR ''#''"
  shows "(take 2 (u @ r) = ''//'') = (take 2 u = ''//'')"
proof (cases u)
  case Nil
  show ?thesis
  proof (cases r)
    case rn: Nil
    with Nil show ?thesis by simp
  next
    case (Cons a r0)
    with assms have "a = CHR ''?'' \<or> a = CHR ''#''" by simp
    then have "a \<noteq> CHR ''/''" by auto
    with Nil Cons show ?thesis by simp
  qed
next
  case (Cons b u1)
  show ?thesis
  proof (cases u1)
    case Nil
    show ?thesis
    proof (cases r)
      case rn: Nil
      with Cons Nil show ?thesis by simp
    next
      case rc: (Cons a r0)
      with assms have "a = CHR ''?'' \<or> a = CHR ''#''" by simp
      then have "a \<noteq> CHR ''/''" by auto
      with Cons Nil rc show ?thesis by simp
    qed
  next
    case c2: (Cons c u2)
    with Cons show ?thesis by simp
  qed
qed

lemma normalize_tail:
  assumes r: "r = [] \<or> hd r = CHR ''?'' \<or> hd r = CHR ''#''"
  shows "normalize_product_url E (t @ r) = normalize_product_url E t"
proof -
  define t1 where "t1 = remove_unsafe (lstrip_c0 t)"
  define r1 where "r1 = remove_unsafe r"
  have r1: "r1 = [] \<or> hd r1 = CHR ''?'' \<or> hd r1 = CHR ''#''"
    unfolding r1_def by (rule remove_unsafe_tail(2) [OF r])
  have u1: "remove_unsafe (lstrip_c0 (t @ r)) = t1 @ r1"
    unfolding lstrip_c0_tail [OF r] remove_unsafe_tail(1) [OF r] t1_def r1_def ..
  obtain sch u2 where ss: "split_scheme t1 = (sch, u2)"
    by (cases "split_scheme t1")
  have ss': "split_scheme (remove_unsafe (lstrip_c0 (t @ r))) = (sch, u2 @ r1)"
    unfolding u1 split_scheme_tail [OF r1] ss by simp
  obtain n u3 where sn: "(if take 2 u2 = ''//'' then splitnetloc u2 else ([], u2)) = (n, u3)"
    by (cases "if take 2 u2 = ''//'' then splitnetloc u2 else ([], u2)")
  have h: "(take 2 (u2 @ r1) = ''//'') = (take 2 u2 = ''//'')"
    by (rule take2_tail [OF r1])
  have nd: "r1 = [] \<or> \<not> (\<lambda>c. \<not> netloc_delim c) (hd r1)"
    using r1 by (auto simp: netloc_delim_def)
  have sn': "(if take 2 (u2 @ r1) = ''//'' then splitnetloc (u2 @ r1) else ([], u2 @ r1))
      = (n, u3 @ r1)"
  proof (cases "take 2 u2 = ''//''")
    case True
    then have "length (take 2 u2) = 2" by simp
    then have "2 \<le> length u2" by simp
    then have d: "drop 2 (u2 @ r1) = drop 2 u2 @ r1" by simp
    from True sn have n: "n = takeWhile (\<lambda>c. \<not> netloc_delim c) (drop 2 u2)"
      and u3: "u3 = dropWhile (\<lambda>c. \<not> netloc_delim c) (drop 2 u2)"
      unfolding splitnetloc_def by simp_all
    have tw: "takeWhile (\<lambda>c. \<not> netloc_delim c) (drop 2 u2 @ r1) = n"
      unfolding n using nd by (rule takeWhile_tail [of r1 "\<lambda>c. \<not> netloc_delim c" "drop 2 u2"])
    have dw: "dropWhile (\<lambda>c. \<not> netloc_delim c) (drop 2 u2 @ r1) = u3 @ r1"
      unfolding u3 using nd by (rule dropWhile_tail [of r1 "\<lambda>c. \<not> netloc_delim c" "drop 2 u2"])
    have "splitnetloc (u2 @ r1) = (n, u3 @ r1)"
      unfolding splitnetloc_def d tw dw ..
    with True h show ?thesis by simp
  next
    case False
    with sn have "n = []" "u3 = u2" by simp_all
    with False h show ?thesis by simp
  qed
  have qf: "r1 = [] \<or> \<not> (\<lambda>x. x \<noteq> CHR ''?'' \<and> x \<noteq> CHR ''#'') (hd r1)"
    using r1 by auto
  have path: "takeWhile (\<lambda>x. x \<noteq> CHR ''?'') (takeWhile (\<lambda>x. x \<noteq> CHR ''#'') (u3 @ r1))
      = takeWhile (\<lambda>x. x \<noteq> CHR ''?'') (takeWhile (\<lambda>x. x \<noteq> CHR ''#'') u3)"
    unfolding takeWhile_twice using qf
    by (rule takeWhile_tail [of r1 "\<lambda>x. x \<noteq> CHR ''?'' \<and> x \<noteq> CHR ''#''" u3])
  show ?thesis
    unfolding normalize_product_url_eq [OF ss' sn', of E]
      normalize_product_url_eq [OF ss [unfolded t1_def] sn, of E] h path ..
qed

lemma normalize_prefix:
  "normalize_product_url E u
     = normalize_product_url E (takeWhile (\<lambda>c. c \<noteq> CHR ''?'' \<and> c \<noteq> CHR ''#'') u)"
proof -
  let ?P = "\<lambda>c. c \<noteq> CHR ''?'' \<and> c \<noteq> CHR ''#''"
  have "dropWhile ?P u = [] \<or> \<not> ?P (hd (dropWhile ?P u))"
    using hd_dropWhile [of ?P u] by blast
  then have "dropWhile ?P u = [] \<or> hd (dropWhile ?P u) = CHR ''?'' \<or> hd (dropWhile ?P u) = CHR ''#''"
    by blast
  from normalize_tail [OF this, of E "takeWhile ?P u"] show ?thesis
    by simp
qed

section \<open>Facts about canonical URLs\<close>

lemma canonical_of_href_cases:
  assumes "canonical_of_href E href = Inr u"
  shows "(\<exists>raw. normalize_product_url E raw = Inr u)
     \<or> u = ''https://www.walmart.com'' @ split_head CHR ''#'' (split_head CHR ''?'' href)"
proof -
  define raw where "raw = (if prefix ''http'' href then href else ''https://www.walmart.com'' @ href)"
  show ?thesis
  proof (cases "normalize_product_url E raw")
    case (Inl e)
    with assms have "u = ''https://www.walmart.com'' @ split_head CHR ''#'' (split_head CHR ''?'' href)"
      unfolding canonical_of_href_def raw_def by simp
    then show ?thesis by simp
  next
    case (Inr c)
    with assms have "u = c"
      unfolding canonical_of_href_def raw_def by simp
    with Inr show ?thesis by blast
  qed
qed

lemma canonical_no_query:
  assumes "canonical_of_href E href = Inr u"
  shows "\<not> has_query_or_fragment u"
  using canonical_of_href_cases [OF assms]
proof
  assume "\<exists>raw. normalize_product_url E raw = Inr u"
  then obtain raw where "normalize_product_url E raw = Inr u" ..
  from normalize_shape [OF this] obtain s n p where "u = s @ ''://'' @ n @ p" "url_shape E s n p"
    by blast
  then show ?thesis using url_shape_no_query [of E s n p] by simp
next
  assume "u = ''https://www.walmart.com'' @ split_head CHR ''#'' (split_head CHR ''?'' href)"
  then show ?thesis
    using prefixed_no_query [OF stripped_no_query, of href] by simp
qed

lemma canonical_absolute:
  assumes "canonical_of_href E href = Inr u"
  shows "is_absolute_url u"
  using canonical_of_href_cases [OF assms]
proof
  assume "\<exists>raw. normalize_product_url E raw = Inr u"
  then obtain raw where "normalize_product_url E raw = Inr u" ..
  from normalize_shape [OF this] obtain s n p where "u = s @ ''://'' @ n @ p" "url_shape E s n p"
    by blast
  then show ?thesis using url_shape_absolute [of E s n p] by simp
next
  assume "u = ''https://www.walmart.com'' @ split_head CHR ''#'' (split_head CHR ''?'' href)"
  then show ?thesis
    using prefixed_absolute by simp
qed

lemma anchor_urls_no_query:
  "anchor_urls E hrefs = Inr us \<Longrightarrow> \<forall>u\<in>set us. \<not> has_query_or_fragment u"
proof (induction hrefs arbitrary: us)
  case Nil
  then show ?case by simp
next
  case (Cons href rest)
  obtain vs where vs: "anchor_urls E rest = Inr vs"
    using anchor_urls_total by blast
  obtain c where c: "canonical_of_href E href = Inr c"
    using canonical_of_href_total by blast
  from Cons.IH [OF vs] have ih: "\<forall>u\<in>set vs. \<not> has_query_or_fragment u" .
  show ?case
  proof (cases "py_in ''/ip/'' href \<and> \<not> prefix ''/b/'' (py_lower href)")
    case True
    with Cons.prems vs c have "us = c # vs" by simp
    with ih canonical_no_query [OF c] show ?thesis by simp
  next
    case False
    with Cons.prems vs have "us = vs" by auto
    with ih show ?thesis by simp
  qed
qed

lemma fallback_urls_no_query: "\<forall>u\<in>set (fallback_urls ps). \<not> has_query_or_fragment u"
proof (induction ps)
  case Nil
  then show ?case by simp
next
  case (Cons p rest)
  have "\<not> has_query_or_fragment
      (''https://www.walmart.com'' @ split_head CHR ''#'' (split_head CHR ''?'' p))"
    by (rule prefixed_no_query [OF stripped_no_query])
  with Cons show ?case
    by (simp add: Let_def)
qed

section \<open>Claim C5: what the link extractor returns\<close>

text \<open>
  C5. On every search page \<^verbatim>\<open>get_link\<close> returns a list. No URL of it contains a \<^verbatim>\<open>?\<close> or
  a \<^verbatim>\<open>#\<close>, so none has a query string or a fragment; no URL occurs twice; the list has
  the same URLs as the candidate list \<^verbatim>\<open>product_urls\<close>, which the loops fill in document
  order; and the URLs are listed by the position of their first occurrence in that list.
\<close>

theorem get_link_output_invariant:
  "\<exists>cands out. product_urls E html = Inr cands \<and> get_link_html E html = Inr out
     \<and> (\<forall>u\<in>set out. \<not> has_query_or_fragment u)
     \<and> distinct out
     \<and> set out = set cands
     \<and> sorted_wrt (\<lambda>a b. first_index cands a < first_index cands b) out"
proof -
  obtain anchors where a: "anchor_urls E (find_all_a_href E html) = Inr anchors"
    using anchor_urls_total by blast
  define cands where
    "cands = (if anchors = [] then fallback_urls (re_findall_ip E html) else anchors)"
  have p: "product_urls E html = Inr cands"
    unfolding product_urls_def cands_def by (simp add: a)
  then have g: "get_link_html E html = Inr (dedupe_loop {} [] cands)"
    unfolding get_link_html_def by simp
  have s: "set (dedupe_loop {} [] cands) = set cands"
    by (simp add: dedupe_loop_set)
  have "\<forall>u\<in>set cands. \<not> has_query_or_fragment u"
    unfolding cands_def using anchor_urls_no_query [OF a] fallback_urls_no_query by simp
  then have q: "\<forall>u\<in>set (dedupe_loop {} [] cands). \<not> has_query_or_fragment u"
    unfolding s .
  have d: "distinct (dedupe_loop {} [] cands)"
    by (rule dedupe_loop_distinct) simp_all
  have f: "sorted_wrt (\<lambda>a b. first_index cands a < first_index cands b) (dedupe_loop {} [] cands)"
    by (rule dedupe_first_occurrence)
  from p g q d s f show ?thesis
    by blast
qed

theorem get_link_output_invariant_witness:
  "product_urls demo_env ''search1''
     = Inr [''https://www.walmart.com/ip/A/1'', ''https://www.walmart.com/ip/B/2'',
            ''https://www.walmart.com/ip/A/1'']
   \<and> get_link_html demo_env ''search1''
     = Inr [''https://www.walmart.com/ip/A/1'', ''https://www.walmart.com/ip/B/2'']
   \<and> \<not> has_query_or_fragment ''https://www.walmart.com/ip/A/1''
   \<and> \<not> has_query_or_fragment ''https://www.walmart.com/ip/B/2''
   \<and> first_index [''https://www.walmart.com/ip/A/1'', ''https://www.walmart.com/ip/B/2'',
                   ''https://www.walmart.com/ip/A/1''] ''https://www.walmart.com/ip/A/1''
       < first_index [''https://www.walmart.com/ip/A/1'', ''https://www.walmart.com/ip/B/2'',
                   ''https://www.walmart.com/ip/A/1''] ''https://www.walmart.com/ip/B/2''"
proof -
  have p: "product_urls demo_env ''search1''
      = Inr [''https://www.walmart.com/ip/A/1'', ''https://www.walmart.com/ip/B/2'',
             ''https://www.walmart.com/ip/A/1'']"
    by code_simp
  have g: "get_link_html demo_env ''search1''
      = Inr [''https://www.walmart.com/ip/A/1'', ''https://www.walmart.com/ip/B/2'']"
    by code_simp
  from get_link_output_invariant [of demo_env "''search1''"]
  obtain cands out where c: "product_urls demo_env ''search1'' = Inr cands"
    and o: "get_link_html demo_env ''search1'' = Inr out"
    and q: "\<forall>u\<in>set out. \<not> has_query_or_fragment u"
    and f: "sorted_wrt (\<lambda>a b. first_index cands a < first_index cands b) out"
    by blast
  from c p have cands: "cands = [''https://www.walmart.com/ip/A/1'', ''https://www.walmart.com/ip/B/2'',
      ''https://www.walmart.com/ip/A/1'']"
    by simp
  from o g have out: "out = [''https://www.walmart.com/ip/A/1'', ''https://www.walmart.com/ip/B/2'']"
    by simp
  from q have q': "\<not> has_query_or_fragment ''https://www.walmart.com/ip/A/1''
      \<and> \<not> has_query_or_fragment ''https://www.walmart.com/ip/B/2''"
    unfolding out by simp
  from f have f': "first_index [''https://www.walmart.com/ip/A/1'', ''https://www.walmart.com/ip/B/2'',
                   ''https://www.walmart.com/ip/A/1''] ''https://www.walmart.com/ip/A/1''
       < first_index [''https://www.walmart.com/ip/A/1'', ''https://www.walmart.com/ip/B/2'',
                   ''https://www.walmart.com/ip/A/1''] ''https://www.walmart.com/ip/B/2''"
    unfolding out cands by simp
  from p g q' f' show ?thesis
    by blast
qed

section \<open>Claim C6: normalising twice, and URLs that differ in query or fragment\<close>

text \<open>
  C6 asks that for every input string the normaliser applied twice gives what it gives
  applied once. \<^verbatim>\<open>normalize_product_url\<close> returns nothing on an input whose network
  location has an unmatched bracket: \<^verbatim>\<open>urlsplit\<close> raises \<^verbatim>\<open>ValueError\<close>. With the fallback
  of its caller (lines 75 to 78 of \<^verbatim>\<open>get_link\<close>) a URL is returned for the href
  \<^verbatim>\<open>[/ip/x\<close>, and that URL is not mapped to itself.
\<close>

theorem normalize_raises_counterexample:
  "normalize_product_url demo_env ''https://www.walmart.com[/ip/x'' = Inl ValueError
   \<and> canonical_of_href demo_env ''[/ip/x'' = Inr ''https://www.walmart.com[/ip/x''
   \<and> canonical_of_href demo_env ''https://www.walmart.com[/ip/x''
       = Inr ''https://www.walmart.comhttps://www.walmart.com[/ip/x''"
  by code_simp

text \<open>
  C6, amended. Normalising twice has the outcome of normalising once on every input: when
  \<^verbatim>\<open>normalize_product_url\<close> returns a URL, it maps that URL to itself, and when it raises,
  there is nothing to normalise again. Two inputs that agree up to the first \<^verbatim>\<open>?\<close> or
  \<^verbatim>\<open>#\<close> of each have the same outcome: the same URL, or both raise.
\<close>

theorem normalize_idempotent_where_defined:
  "ebind (normalize_product_url E x) (normalize_product_url E) = normalize_product_url E x
   \<and> (normalize_product_url E x = Inr y \<longrightarrow> normalize_product_url E y = Inr y)
   \<and> (differ_only_in_query_fragment u v \<longrightarrow>
        normalize_product_url E u = normalize_product_url E v)"
proof -
  have fixed: "normalize_product_url E y' = Inr y'" if "normalize_product_url E x' = Inr y'" for x' y'
  proof -
    from normalize_shape [OF that] obtain s n p where "y' = s @ ''://'' @ n @ p" "url_shape E s n p"
      by blast
    then show ?thesis using normalize_fixed [of E s n p] by simp
  qed
  have 1: "ebind (normalize_product_url E x) (normalize_product_url E) = normalize_product_url E x"
  proof (cases "normalize_product_url E x")
    case (Inl e)
    then show ?thesis by simp
  next
    case (Inr z)
    with fixed [OF Inr] show ?thesis by simp
  qed
  have 2: "normalize_product_url E x = Inr y \<longrightarrow> normalize_product_url E y = Inr y"
    using fixed by blast
  have 3: "differ_only_in_query_fragment u v \<longrightarrow>
      normalize_product_url E u = normalize_product_url E v"
  proof
    assume "differ_only_in_query_fragment u v"
    then have "takeWhile (\<lambda>c. c \<noteq> CHR ''?'' \<and> c \<noteq> CHR ''#'') u
        = takeWhile (\<lambda>c. c \<noteq> CHR ''?'' \<and> c \<noteq> CHR ''#'') v"
      unfolding differ_only_in_query_fragment_def .
    then show "normalize_product_url E u = normalize_product_url E v"
      using normalize_prefix [of E u] normalize_prefix [of E v] by simp
  qed
  from 1 2 3 show ?thesis by blast
qed

theorem normalize_idempotent_where_defined_witness:
  "normalize_product_url demo_env ''/ip/A/1?x=1'' = Inr ''https://www.walmart.com/ip/A/1''
   \<and> normalize_product_url demo_env ''https://www.walmart.com/ip/A/1''
       = Inr ''https://www.walmart.com/ip/A/1''
   \<and> differ_only_in_query_fragment ''/ip/A/1?x=1'' ''/ip/A/1#r''
   \<and> normalize_product_url demo_env ''/ip/A/1#r'' = Inr ''https://www.walmart.com/ip/A/1''"
proof -
  have n: "normalize_product_url demo_env ''/ip/A/1?x=1'' = Inr ''https://www.walmart.com/ip/A/1''"
    by code_simp
  have d: "differ_only_in_query_fragment ''/ip/A/1?x=1'' ''/ip/A/1#r''"
    by code_simp
  from normalize_idempotent_where_defined
    [of demo_env "''/ip/A/1?x=1''" "''https://www.walmart.com/ip/A/1''" "''/ip/A/1?x=1''" "''/ip/A/1#r''"]
    n d
  show ?thesis by simp
qed

section \<open>Claim C7: the normaliser with its fallback never fails\<close>

text \<open>
  C7. The normalising step of \<^verbatim>\<open>get_link\<close>, the call of \<^verbatim>\<open>normalize_product_url\<close> inside
  \<^verbatim>\<open>try\<close> with its \<^verbatim>\<open>except\<close> branch, returns a URL for every href. When the call raises,
  the URL is the canonical scheme and host followed by the href cut before its first \<^verbatim>\<open>?\<close>
  or \<^verbatim>\<open>#\<close>. In both cases the URL is absolute: the library's splitting finds a scheme and
  a network location in it.
\<close>

theorem normalizer_total_with_fallback:
  "\<exists>u. canonical_of_href E href = Inr u \<and> is_absolute_url u
     \<and> (isl (normalize_product_url E
               (if prefix ''http'' href then href else ''https://www.walmart.com'' @ href)) \<longrightarrow>
          u = ''https://www.walmart.com''
                @ takeWhile (\<lambda>c. c \<noteq> CHR ''?'' \<and> c \<noteq> CHR ''#'') href)
     \<and> (\<forall>c. normalize_product_url E
               (if prefix ''http'' href then href else ''https://www.walmart.com'' @ href) = Inr c
            \<longrightarrow> u = c)"
proof -
  obtain u where u: "canonical_of_href E href = Inr u"
    using canonical_of_href_total by blast
  have a: "is_absolute_url u"
    using u by (rule canonical_absolute)
  have f: "isl (normalize_product_url E
               (if prefix ''http'' href then href else ''https://www.walmart.com'' @ href)) \<longrightarrow>
          u = ''https://www.walmart.com''
                @ takeWhile (\<lambda>c. c \<noteq> CHR ''?'' \<and> c \<noteq> CHR ''#'') href"
    using u unfolding canonical_of_href_def stripped_prefix
    by (cases "normalize_product_url E
               (if prefix ''http'' href then href else ''https://www.walmart.com'' @ href)") simp_all
  have n: "\<forall>c. normalize_product_url E
               (if prefix ''http'' href then href else ''https://www.walmart.com'' @ href) = Inr c
            \<longrightarrow> u = c"
    using u unfolding canonical_of_href_def
    by (cases "normalize_product_url E
               (if prefix ''http'' href then href else ''https://www.walmart.com'' @ href)") simp_all
  from u a f n show ?thesis by blast
qed

theorem normalizer_total_with_fallback_witness:
  "canonical_of_href demo_env ''[/ip/x?q=1#f'' = Inr ''https://www.walmart.com[/ip/x''
   \<and> is_absolute_url ''https://www.walmart.com[/ip/x''
   \<and> canonical_of_href demo_env ''/ip/A/1?x=1'' = Inr ''https://www.walmart.com/ip/A/1''"
proof -
  have r: "isl (normalize_product_url demo_env
      (if prefix ''http'' ''[/ip/x?q=1#f'' then ''[/ip/x?q=1#f''
       else ''https://www.walmart.com'' @ ''[/ip/x?q=1#f''))"
    by code_simp
  have t: "''https://www.walmart.com''
      @ takeWhile (\<lambda>c. c \<noteq> CHR ''?'' \<and> c \<noteq> CHR ''#'') ''[/ip/x?q=1#f''
      = ''https://www.walmart.com[/ip/x''"
    by code_simp
  have k: "normalize_product_url demo_env
      (if prefix ''http'' ''/ip/A/1?x=1'' then ''/ip/A/1?x=1''
       else ''https://www.walmart.com'' @ ''/ip/A/1?x=1'') = Inr ''https://www.walmart.com/ip/A/1''"
    by code_simp
  from normalizer_total_with_fallback [of demo_env "''[/ip/x?q=1#f''"] r t
  have 1: "canonical_of_href demo_env ''[/ip/x?q=1#f'' = Inr ''https://www.walmart.com[/ip/x''
      \<and> is_absolute_url ''https://www.walmart.com[/ip/x''"
    by auto
  from normalizer_total_with_fallback [of demo_env "''/ip/A/1?x=1''"] k
  have 2: "canonical_of_href demo_env ''/ip/A/1?x=1'' = Inr ''https://www.walmart.com/ip/A/1''"
    by auto
  from 1 2 show ?thesis by simp
qed

end
